theory Spec2Isabelle
  imports Complex_Main "HOL-Library.Multiset" "HOL-Library.Char_ord" "HOL-Library.List_Lexorder"
begin

section \<open>Time\<close>

text \<open>
  Every timestamp of the program is a Python float returned by \<^verbatim>\<open>time.time()\<close>.
  The model takes them as real numbers: comparisons, additions and subtractions
  are the exact ones.  Each call of \<^verbatim>\<open>time.time()\<close> that a method makes is an
  explicit argument of the model of that method, in the order of the calls.
\<close>

type_synonym time = real

section \<open>CircuitBreaker (vyxen\_core/safety.py)\<close>

record circuit_breaker =
  name :: string
  threshold :: int
  window_seconds :: real
  cooldown_seconds :: real
  failures :: "time list"
  tripped_until :: time
  reason :: string

text \<open>\<^verbatim>\<open>CircuitBreaker.__init__\<close>: empty failure deque, \<^verbatim>\<open>tripped_until = 0.0\<close>.\<close>

definition CircuitBreaker :: "string \<Rightarrow> int \<Rightarrow> real \<Rightarrow> real \<Rightarrow> circuit_breaker" where
  "CircuitBreaker nm th w c =
     \<lparr>name = nm, threshold = th, window_seconds = w, cooldown_seconds = c,
      failures = [], tripped_until = 0, reason = ''''\<rparr>"

text \<open>The property \<^verbatim>\<open>tripped\<close> reads the clock itself: \<^verbatim>\<open>time.time() < self.tripped_until\<close>.\<close>

definition tripped :: "time \<Rightarrow> circuit_breaker \<Rightarrow> bool" where
  "tripped clock b = (clock < tripped_until b)"

text \<open>
  \<^verbatim>\<open>_prune(now)\<close>.  The \<^verbatim>\<open>while\<close> loop pops from the left of the deque as long as the
  leftmost timestamp is older than the window.  The second statement tests
  \<^verbatim>\<open>self.tripped and now >= self.tripped_until\<close>; \<open>clock\<close> is the reading of
  \<^verbatim>\<open>time.time()\<close> that the property \<^verbatim>\<open>tripped\<close> makes there, after \<open>now\<close> was read.
\<close>

definition prune :: "time \<Rightarrow> time \<Rightarrow> circuit_breaker \<Rightarrow> circuit_breaker" where
  "prune now clock b =
     (let b1 = b\<lparr>failures := dropWhile (\<lambda>f. now - f > window_seconds b) (failures b)\<rparr>
      in if tripped clock b1 \<and> now \<ge> tripped_until b1
         then b1\<lparr>failures := [], reason := ''''\<rparr>
         else b1)"

text \<open>\<^verbatim>\<open>allow()\<close>: the returned flag and the breaker after the call.\<close>

definition allow :: "time \<Rightarrow> time \<Rightarrow> circuit_breaker \<Rightarrow> bool \<times> circuit_breaker" where
  "allow now clock b =
     (let b1 = prune now clock b
      in if now < tripped_until b1 then (False, b1) else (True, b1))"

definition record_failure :: "string \<Rightarrow> time \<Rightarrow> time \<Rightarrow> circuit_breaker \<Rightarrow> circuit_breaker" where
  "record_failure rsn now clock b =
     (let b1 = b\<lparr>failures := failures b @ [now], reason := rsn\<rparr>;
          b2 = prune now clock b1
      in if int (length (failures b2)) \<ge> threshold b2
         then b2\<lparr>tripped_until := now + cooldown_seconds b2\<rparr>
         else b2)"

definition record_success :: "time \<Rightarrow> time \<Rightarrow> circuit_breaker \<Rightarrow> circuit_breaker" where
  "record_success now clock b =
     (let b1 = prune now clock b
      in if failures b1 = [] then b1\<lparr>reason := ''''\<rparr> else b1)"

text \<open>A failure timestamp is inside the window at \<open>now\<close> when the loop of \<open>prune\<close> keeps it.\<close>

definition in_window :: "circuit_breaker \<Rightarrow> time \<Rightarrow> time \<Rightarrow> bool" where
  "in_window b now f = (\<not> now - f > window_seconds b)"

text \<open>
  A series of \<^verbatim>\<open>record_failure\<close> calls, oldest first.  Each call is given by its
  reason and its two clock readings (\<open>now\<close>, then the reading of \<^verbatim>\<open>tripped\<close>).
\<close>

fun record_failures :: "(string \<times> time \<times> time) list \<Rightarrow> circuit_breaker \<Rightarrow> circuit_breaker" where
  "record_failures [] b = b"
| "record_failures ((rsn, now, clock) # cs) b = record_failures cs (record_failure rsn now clock b)"

definition call_now :: "string \<times> time \<times> time \<Rightarrow> time" where
  "call_now c = fst (snd c)"

definition call_clock :: "string \<times> time \<times> time \<Rightarrow> time" where
  "call_clock c = snd (snd c)"

section \<open>Errors, strings and configuration\<close>

text \<open>The exceptions that the modelled code can raise or has to contain.\<close>

datatype py_error = OperationalError string | KeyError string | OtherError string

definition error_text :: "py_error \<Rightarrow> string" where
  "error_text e = (case e of OperationalError m \<Rightarrow> m | KeyError m \<Rightarrow> m | OtherError m \<Rightarrow> m)"

text \<open>\<^verbatim>\<open>str.lower()\<close> and \<^verbatim>\<open>str.strip()\<close> on ASCII text, \<^verbatim>\<open>needle in text\<close> and \<^verbatim>\<open>text.startswith\<close>.\<close>

definition lower_char :: "char \<Rightarrow> char" where
  "lower_char c = (if (65::nat) \<le> of_char c \<and> of_char c \<le> (90::nat) then char_of (of_char c + (32::nat)) else c)"

definition lower :: "string \<Rightarrow> string" where
  "lower s = map lower_char s"

definition is_space :: "char \<Rightarrow> bool" where
  "is_space c = (of_char c \<in> {9, 10, 11, 12, 13, 32 :: nat})"

definition strip :: "string \<Rightarrow> string" where
  "strip s = rev (dropWhile is_space (rev (dropWhile is_space s)))"

fun startswith :: "string \<Rightarrow> string \<Rightarrow> bool" where
  "startswith s [] = True"
| "startswith [] (p # ps) = False"
| "startswith (c # cs) (p # ps) = (c = p \<and> startswith cs ps)"

fun contains :: "string \<Rightarrow> string \<Rightarrow> bool" where
  "contains [] needle = (needle = [])"
| "contains (c # cs) needle = (startswith (c # cs) needle \<or> contains cs needle)"

text \<open>The fields of \<^verbatim>\<open>RuntimeConfig\<close> that the modelled code reads.\<close>

record runtime_config =
  tick_interval_seconds :: real
  safe_mode_tick_interval_seconds :: real
  safe_mode_default :: bool
  memory_retention_limit :: int
  hot_memory_row_cap :: int
  hot_rotation_chunk :: int
  memory_retention_window_seconds :: real
  memory_max_file_mb :: int
  memory_max_writes_per_second :: int
  memory_table_limits :: "(string \<times> int) list option"
  pm2_ingestion_enabled :: bool
  log_ingest_timeout_seconds :: real
  watchdog_cpu_load :: real
  watchdog_memory_mb :: int
  watchdog_event_loop_lag :: real
  watchdog_queue_depth :: int
  watchdog_safe_tick_interval :: real

text \<open>The defaults of the dataclass \<^verbatim>\<open>RuntimeConfig\<close>.\<close>

definition default_config :: runtime_config where
  "default_config =
     \<lparr>tick_interval_seconds = 0.5, safe_mode_tick_interval_seconds = 1, safe_mode_default = True,
      memory_retention_limit = 2000, hot_memory_row_cap = 2000, hot_rotation_chunk = 400,
      memory_retention_window_seconds = 259200, memory_max_file_mb = 600,
      memory_max_writes_per_second = 4, memory_table_limits = None,
      pm2_ingestion_enabled = False, log_ingest_timeout_seconds = 0.25, watchdog_cpu_load = 1.25, watchdog_memory_mb = 1024,
      watchdog_event_loop_lag = 0.25, watchdog_queue_depth = 120,
      watchdog_safe_tick_interval = 1.5\<rparr>"

definition get_memory_table_limits :: "runtime_config \<Rightarrow> (string \<times> int) list" where
  "get_memory_table_limits cfg =
     (case memory_table_limits cfg of
        Some limits \<Rightarrow> limits
      | None \<Rightarrow> [(''memory'', 4000), (''user_profiles'', 2000), (''relationships'', 4000),
                 (''shared_context'', 2000), (''user_important'', 2000), (''server_profiles'', 500),
                 (''server_events'', 2000), (''admin_policies'', 500), (''identity_traits'', 20)])"

section \<open>CausalMemory (vyxen\_core/memory.py)\<close>

subsection \<open>The database\<close>

text \<open>
  A row of the table \<^verbatim>\<open>memory\<close>.  The JSON columns are kept as their text.
  \<^verbatim>\<open>MemoryEntry\<close>, which \<^verbatim>\<open>fetch_recent\<close> builds from a row, has the same fields.
\<close>

record memory_row =
  row_id :: int
  server_id :: string
  stimulus_type :: string
  row_context :: string
  interpretations :: string
  decision :: string
  action :: string
  outcome :: string
  confidence_delta :: real
  ts :: time

text \<open>
  Rows of \<^verbatim>\<open>user_profiles\<close> and \<^verbatim>\<open>relationships\<close>.  The column \<^verbatim>\<open>data\<close> is the JSON text
  of a dictionary from trait names to numbers; \<open>None\<close> stands for a text that
  \<^verbatim>\<open>json.loads\<close> or \<^verbatim>\<open>float\<close> rejects.
\<close>

record profile_row =
  p_server_id :: string
  p_user_id :: string
  p_data :: "(string \<times> real) list option"
  p_updated :: time

record relationship_row =
  r_server_id :: string
  r_user_a :: string
  r_user_b :: string
  r_data :: "(string \<times> real) list option"
  r_updated :: time

text \<open>
  The SQLite file: the three tables above, the \<^verbatim>\<open>AUTOINCREMENT\<close> counter of
  \<^verbatim>\<open>memory\<close>, and the row counts of the remaining tables, by name.
\<close>

record database =
  memory :: "memory_row list"
  next_id :: int
  user_profiles :: "profile_row list"
  relationships :: "relationship_row list"
  other_tables :: "(string \<times> nat) list"

text \<open>The file that \<^verbatim>\<open>_init_db\<close> leaves when there was none: every table exists and is empty.\<close>

definition empty_database :: database where
  "empty_database =
     \<lparr>memory = [], next_id = 1, user_profiles = [], relationships = [],
      other_tables = [(''shared_context'', 0), (''user_important'', 0), (''server_profiles'', 0),
                      (''server_events'', 0), (''admin_policies'', 0)]\<rparr>"

text \<open>
  \<^verbatim>\<open>ORDER BY ts ASC\<close> and \<^verbatim>\<open>ORDER BY ts DESC\<close>.  The list \<open>memory\<close> holds the rows in
  the order of their ids.  SQL leaves the order of rows with equal \<^verbatim>\<open>ts\<close> open;
  SQLite answers the queries of \<^verbatim>\<open>fetch_recent\<close> and \<^verbatim>\<open>echoes\<close> from the indexes
  \<^verbatim>\<open>(server_id, ts DESC)\<close> and \<^verbatim>\<open>(server_id, stimulus_type, ts DESC)\<close> of \<^verbatim>\<open>_init_db\<close>,
  which list such rows by ascending id.  The model takes that order throughout:
  both orders are stable sorts of the table, by \<open>ts\<close> and by \<open>- ts\<close>.
  \<^verbatim>\<open>LIMIT n\<close> with a negative \<open>n\<close> is no limit in SQLite.
\<close>

definition order_by_ts_asc :: "memory_row list \<Rightarrow> memory_row list" where
  "order_by_ts_asc rows = sort_key ts rows"

definition order_by_ts_desc :: "memory_row list \<Rightarrow> memory_row list" where
  "order_by_ts_desc rows = sort_key (\<lambda>r. - ts r) rows"

definition sql_limit :: "int \<Rightarrow> 'a list \<Rightarrow> 'a list" where
  "sql_limit n xs = (if n < 0 then xs else take (nat n) xs)"

text \<open>\<^verbatim>\<open>DELETE FROM memory WHERE id IN (...)\<close>.\<close>

definition delete_ids :: "int list \<Rightarrow> memory_row list \<Rightarrow> memory_row list" where
  "delete_ids ids rows = filter (\<lambda>r. row_id r \<notin> set ids) rows"

text \<open>\<^verbatim>\<open>SELECT COUNT(*) FROM table\<close>; \<open>None\<close> when there is no such table.\<close>

definition table_count :: "database \<Rightarrow> string \<Rightarrow> nat option" where
  "table_count d t =
     (if t = ''memory'' then Some (length (memory d))
      else if t = ''user_profiles'' then Some (length (user_profiles d))
      else if t = ''relationships'' then Some (length (relationships d))
      else map_of (other_tables d) t)"

subsection \<open>The warm archive\<close>

text \<open>
  A line of the archive: the summary of one rotated row (server, type,
  decision, outcome, timestamp), or the aggregate that closes a batch (count
  per type, smallest and largest timestamp).
\<close>

datatype archive_line =
    RowSummary string string string string time
  | Aggregate "(string \<times> nat) list" time time

fun bump :: "string \<Rightarrow> (string \<times> nat) list \<Rightarrow> (string \<times> nat) list" where
  "bump k [] = [(k, 1)]"
| "bump k ((k', n) # kvs) = (if k = k' then (k', Suc n) # kvs else (k', n) # bump k kvs)"

definition summarize_rows :: "memory_row list \<Rightarrow> archive_line list" where
  "summarize_rows rows =
     (let summaries = map (\<lambda>r. RowSummary (server_id r) (stimulus_type r) (decision r) (outcome r) (ts r)) rows;
          type_counter = foldl (\<lambda>acc r. bump (stimulus_type r) acc) [] rows
      in if summaries \<noteq> []
         then summaries @ [Aggregate type_counter
                              (foldl min (ts (hd rows)) (map ts (tl rows)))
                              (foldl max (ts (hd rows)) (map ts (tl rows)))]
         else summaries)"

subsection \<open>The store\<close>

text \<open>
  The object, the SQLite file \<open>db\<close> and the archive file \<open>warm_archive\<close> it owns.
  \<open>db_fault = Some msg\<close> says that opening or querying the database raises
  \<^verbatim>\<open>sqlite3.OperationalError(msg)\<close> (a locked, unreadable or damaged file);
  \<open>archive_fault\<close> says that appending to the archive file raises.
\<close>

record causal_memory =
  config :: runtime_config
  allow_writes :: bool
  table_limits :: "(string \<times> int) list"
  write_timestamps :: "time list"
  breaker :: circuit_breaker
  disabled_due_to_size :: bool
  disabled_reason :: string
  last_rotation_ts :: "time option"
  db :: database
  db_fault :: "string option"
  warm_archive :: "archive_line list"
  archive_fault :: bool

text \<open>\<^verbatim>\<open>self.config.memory_path.stat()\<close>: the size in bytes, or the exception.\<close>

datatype stat_result = StatSize int | FileNotFound | StatFailed string

definition size_reason :: string where
  "size_reason = ''memory db exceeds limit; memory access disabled''"

definition check_size_limit :: "stat_result \<Rightarrow> causal_memory \<Rightarrow> causal_memory" where
  "check_size_limit st m =
     (case st of
        FileNotFound \<Rightarrow> m
      | StatFailed e \<Rightarrow> m
      | StatSize size_bytes \<Rightarrow>
          (let size_mb = real_of_int size_bytes / (1024 * 1024)
           in if size_mb > real_of_int (memory_max_file_mb (config m))
              then m\<lparr>disabled_due_to_size := True, allow_writes := False,
                      disabled_reason := size_reason\<rparr>
              else m\<lparr>disabled_due_to_size := False, disabled_reason := ''''\<rparr>))"

text \<open>
  \<^verbatim>\<open>CausalMemory.__init__\<close> on an existing database file and archive
  (\<^verbatim>\<open>_init_db\<close> creates tables only where they are missing).
\<close>

definition CausalMemory ::
  "runtime_config \<Rightarrow> bool \<Rightarrow> stat_result \<Rightarrow> database \<Rightarrow> string option \<Rightarrow> archive_line list \<Rightarrow> causal_memory" where
  "CausalMemory cfg writes st d fault arch =
     check_size_limit st
       \<lparr>config = cfg, allow_writes = writes, table_limits = get_memory_table_limits cfg,
        write_timestamps = [],
        breaker = CircuitBreaker ''memory'' 5 60 180,
        disabled_due_to_size = False, disabled_reason = '''', last_rotation_ts = None,
        db = d, db_fault = fault, warm_archive = arch, archive_fault = False\<rparr>"

text \<open>\<^verbatim>\<open>_prune_writes(now)\<close>; \<open>clock\<close> is read only when \<open>now\<close> is falsy (\<^verbatim>\<open>now or time.time()\<close>).\<close>

definition prune_writes :: "time \<Rightarrow> time \<Rightarrow> time list \<Rightarrow> time list" where
  "prune_writes now clock ws =
     (let now' = (if now = 0 then clock else now)
      in dropWhile (\<lambda>t. now' - t > 1) ws)"

definition table_over_limit :: "causal_memory \<Rightarrow> string \<Rightarrow> bool" where
  "table_over_limit m t =
     (case map_of (table_limits m) t of
        None \<Rightarrow> False
      | Some limit \<Rightarrow>
          if limit = 0 then False
          else (case table_count (db m) t of
                  None \<Rightarrow> False
                | Some n \<Rightarrow> int n \<ge> limit))"

subsection \<open>The write gate\<close>

text \<open>The readings of \<^verbatim>\<open>time.time()\<close> that one call of \<^verbatim>\<open>_execute_write\<close> can make, in order.\<close>

record write_clock =
  t_allow :: time
  t_allow_tripped :: time
  t_now :: time
  t_prune :: time
  t_commit :: time
  t_result :: time
  t_result_tripped :: time

text \<open>
  \<^verbatim>\<open>_execute_write(table, writer)\<close>.  The writer is the function of the database
  that the caller passes; it returns the new content or the exception it
  raises.  The result is the store after the call and, when the write was
  committed, the timestamp appended to \<^verbatim>\<open>_write_timestamps\<close>.
\<close>

definition execute_write ::
  "write_clock \<Rightarrow> string \<Rightarrow> (database \<Rightarrow> py_error + database) \<Rightarrow> causal_memory
     \<Rightarrow> causal_memory \<times> time option" where
  "execute_write k t writer m =
     (if \<not> allow_writes m then (m, None)
      else
        let (ok, b1) = allow (t_allow k) (t_allow_tripped k) (breaker m);
            m1 = m\<lparr>breaker := b1\<rparr>
        in if \<not> ok then (m1, None)
           else
             let m2 = m1\<lparr>write_timestamps := prune_writes (t_now k) (t_prune k) (write_timestamps m1)\<rparr>
             in if int (length (write_timestamps m2)) \<ge> memory_max_writes_per_second (config m2)
                then (m2, None)
                else
                  (case (case db_fault m2 of
                           Some msg \<Rightarrow> Inl (OperationalError msg)
                         | None \<Rightarrow> if table_over_limit m2 t then Inr None
                                   else (case writer (db m2) of
                                           Inl e \<Rightarrow> Inl e
                                         | Inr d' \<Rightarrow> Inr (Some d'))) of
                     Inr None \<Rightarrow> (m2, None)
                   | Inr (Some d') \<Rightarrow>
                       (m2\<lparr>db := d',
                           write_timestamps := write_timestamps m2 @ [t_commit k],
                           breaker := record_success (t_result k) (t_result_tripped k) (breaker m2)\<rparr>,
                        Some (t_commit k))
                   | Inl (OperationalError msg) \<Rightarrow>
                       if contains (lower msg) ''locked'' then (m2, None)
                       else (m2\<lparr>breaker := record_failure msg (t_result k) (t_result_tripped k) (breaker m2)\<rparr>,
                             None)
                   | Inl e \<Rightarrow>
                       (m2\<lparr>breaker := record_failure (error_text e) (t_result k) (t_result_tripped k) (breaker m2)\<rparr>,
                        None)))"

text \<open>
  The writer of \<^verbatim>\<open>record(...)\<close>: insert the row, keep the
  \<^verbatim>\<open>memory_retention_limit\<close> newest rows, drop the rows older than the retention
  window (\<open>clock\<close> is the reading of \<^verbatim>\<open>time.time()\<close> for the cutoff).
\<close>

definition record_writer :: "runtime_config \<Rightarrow> memory_row \<Rightarrow> time \<Rightarrow> database \<Rightarrow> py_error + database" where
  "record_writer cfg r clock d =
     (let rows1 = memory d @ [r\<lparr>row_id := next_id d\<rparr>];
          keep = map row_id (sql_limit (memory_retention_limit cfg) (order_by_ts_desc rows1));
          rows2 = filter (\<lambda>x. row_id x \<in> set keep) rows1;
          cutoff = clock - memory_retention_window_seconds cfg;
          rows3 = filter (\<lambda>x. \<not> ts x < cutoff) rows2
      in Inr (d\<lparr>memory := rows3, next_id := next_id d + 1\<rparr>))"

text \<open>\<^verbatim>\<open>record(...)\<close>; the row carries the arguments, its \<open>row_id\<close> is assigned by the database.\<close>

definition record_memory ::
  "write_clock \<Rightarrow> time \<Rightarrow> memory_row \<Rightarrow> causal_memory \<Rightarrow> causal_memory \<times> time option" where
  "record_memory k cutoff_clock r m =
     execute_write k ''memory'' (record_writer (config m) r cutoff_clock) m"

subsection \<open>Maintenance\<close>

text \<open>
  The trim of a table other than \<^verbatim>\<open>memory\<close>: without a limit (absent or zero)
  nothing happens; otherwise the \<open>count - limit\<close> rows that come first by the
  time column are deleted.
\<close>

definition trim_table :: "('a \<Rightarrow> time) \<Rightarrow> int option \<Rightarrow> 'a list \<Rightarrow> 'a list" where
  "trim_table col limit rows =
     (case limit of
        None \<Rightarrow> rows
      | Some l \<Rightarrow>
          if l = 0 then rows
          else if int (length rows) > l
               then fold remove1 (sql_limit (int (length rows) - l) (sort_key col rows)) rows
               else rows)"

text \<open>
  \<^verbatim>\<open>_enforce_table_limits()\<close>.  Of the six trimmed tables the model holds
  \<^verbatim>\<open>user_profiles\<close> and \<^verbatim>\<open>relationships\<close>; the other four are kept as row counts.
  A database error leaves the file as it was (nothing is committed).
\<close>

definition trim_count :: "int option \<Rightarrow> nat \<Rightarrow> nat" where
  "trim_count limit n =
     (case limit of None \<Rightarrow> n | Some l \<Rightarrow> if l = 0 then n else if int n > l then nat l else n)"

definition enforce_table_limits :: "causal_memory \<Rightarrow> causal_memory" where
  "enforce_table_limits m =
     (if disabled_due_to_size m then m
      else case db_fault m of
        Some msg \<Rightarrow> m
      | None \<Rightarrow>
          (let d = db m;
               total = int (length (memory d));
               cap = hot_memory_row_cap (config m);
               rows' = (if total > cap
                        then delete_ids (map row_id (sql_limit (max 0 (total - cap))
                                                        (order_by_ts_asc (memory d)))) (memory d)
                        else memory d);
               lim = map_of (table_limits m)
           in m\<lparr>db := d\<lparr>memory := rows',
                          user_profiles := trim_table p_updated (lim ''user_profiles'') (user_profiles d),
                          relationships := trim_table r_updated (lim ''relationships'') (relationships d),
                          other_tables := map (\<lambda>(t, n). (t, if t \<in> {''shared_context'', ''user_important'',
                                                                  ''server_events'', ''admin_policies''}
                                                             then trim_count (lim t) n else n))
                                            (other_tables d)\<rparr>\<rparr>))"

text \<open>\<^verbatim>\<open>_append_warm_archive(summaries)\<close>: a failure is logged and swallowed.\<close>

definition append_warm_archive :: "archive_line list \<Rightarrow> causal_memory \<Rightarrow> causal_memory" where
  "append_warm_archive summaries m =
     (if summaries = [] then m
      else if archive_fault m then m
      else m\<lparr>warm_archive := warm_archive m @ summaries\<rparr>)"

text \<open>
  \<^verbatim>\<open>_rotate_old_records()\<close>: the store after the call and the number of rows
  moved; \<open>clock\<close> is the reading for \<^verbatim>\<open>last_rotation_ts\<close>.
\<close>

definition rotate_old_records :: "time \<Rightarrow> causal_memory \<Rightarrow> causal_memory \<times> nat" where
  "rotate_old_records clock m =
     (if \<not> allow_writes m then (m, 0)
      else case db_fault m of
        Some msg \<Rightarrow> (m, 0)
      | None \<Rightarrow>
          (let cap = hot_memory_row_cap (config m);
               chunk = hot_rotation_chunk (config m);
               total = int (length (memory (db m)))
           in if total \<le> cap then (m, 0)
              else
                let to_move = min chunk (total - cap);
                    rows = sql_limit to_move (order_by_ts_asc (memory (db m)));
                    ids = map row_id rows;
                    m1 = append_warm_archive (summarize_rows rows) m
                in (m1\<lparr>db := (db m1)\<lparr>memory := delete_ids ids (memory (db m1))\<rparr>,
                        last_rotation_ts := Some clock\<rparr>,
                    length rows)))"

record maintain_report =
  rotated :: nat
  vacuumed :: bool
  disabled :: bool
  report_disabled_reason :: "string option"

text \<open>
  \<^verbatim>\<open>maintain()\<close>, given the result of the \<^verbatim>\<open>stat\<close> call and the clock reading of the
  rotation.  The report is built before the size check, so its field
  \<^verbatim>\<open>disabled\<close> holds the flag as it was on entry.
\<close>

definition maintain :: "stat_result \<Rightarrow> time \<Rightarrow> causal_memory \<Rightarrow> causal_memory \<times> maintain_report" where
  "maintain st clock m =
     (let report = \<lparr>rotated = 0, vacuumed = False, disabled = disabled_due_to_size m,
                    report_disabled_reason = None\<rparr>;
          m1 = check_size_limit st m
      in if disabled_due_to_size m1
         then (m1, report\<lparr>report_disabled_reason := Some (disabled_reason m1)\<rparr>)
         else
           let m2 = enforce_table_limits m1;
               (m3, n) = rotate_old_records clock m2
           in (m3, report\<lparr>rotated := n, vacuumed := (db_fault m3 = None)\<rparr>))"

subsection \<open>Reads\<close>

text \<open>\<^verbatim>\<open>fetch_recent(server_id, limit)\<close>: no exception handler around the query.\<close>

definition fetch_recent :: "causal_memory \<Rightarrow> string \<Rightarrow> int \<Rightarrow> py_error + memory_row list" where
  "fetch_recent m server limit =
     (if disabled_due_to_size m then Inr []
      else case db_fault m of
        Some msg \<Rightarrow> Inl (OperationalError msg)
      | None \<Rightarrow>
          Inr (sql_limit limit
                 (order_by_ts_desc (filter (\<lambda>r. server_id r = server) (memory (db m))))))"

text \<open>A stimulus; the type of the context depends on where the stimulus comes from.\<close>

record 'c stimulus =
  stim_type :: string
  source :: string
  stim_context :: 'c
  salience :: real
  routing :: string
  timestamp :: time

text \<open>
  \<^verbatim>\<open>echoes(server_id, stimulus, limit)\<close>; \<open>clock\<close> is the reading of \<^verbatim>\<open>time.time()\<close>
  after the query.  The context of an echo is the stored JSON text.
\<close>

definition echo_decay :: "time \<Rightarrow> time \<Rightarrow> real" where
  "echo_decay now t = (let age_hours = max 0.1 ((now - t) / 3600) in 1 / (1 + age_hours / 24))"

definition echoes ::
  "causal_memory \<Rightarrow> time \<Rightarrow> string \<Rightarrow> 'c stimulus \<Rightarrow> int \<Rightarrow> py_error + string stimulus list" where
  "echoes m clock server stim limit =
     (if disabled_due_to_size m then Inr []
      else case db_fault m of
        Some msg \<Rightarrow> Inl (OperationalError msg)
      | None \<Rightarrow>
          Inr (map (\<lambda>r. \<lparr>stim_type = stimulus_type r, source = ''memory'', stim_context = row_context r,
                          salience = min 1 (salience stim * 0.7 * echo_decay clock (ts r)),
                          routing = ''system'', timestamp = ts r\<rparr>)
                 (sql_limit limit
                    (order_by_ts_desc
                       (filter (\<lambda>r. server_id r = server \<and> stimulus_type r = stim_type stim)
                          (memory (db m)))))))"

definition PROFILE_DEFAULTS :: "(string \<times> real) list" where
  "PROFILE_DEFAULTS =
     [(''verbosity'', 0.5), (''humor_tolerance'', 0.5), (''tone_balance'', 0.5),
      (''success_rate'', 0.5), (''warmth'', 0.5), (''formality'', 0.5),
      (''brevity_bias'', 0.5), (''precision'', 0.5)]"

definition RELATIONSHIP_DEFAULTS :: "(string \<times> real) list" where
  "RELATIONSHIP_DEFAULTS = [(''affinity'', 0.5), (''trust'', 0.5), (''topic_overlap'', 0.5)]"

definition or_global :: "string \<Rightarrow> string" where
  "or_global s = (if s = [] then ''global'' else s)"

text \<open>\<^verbatim>\<open>get_user_profile\<close>: every exception of the query or of the decoding gives the defaults.\<close>

definition get_user_profile :: "causal_memory \<Rightarrow> string \<Rightarrow> string \<Rightarrow> (string \<times> real) list" where
  "get_user_profile m server user =
     (if disabled_due_to_size m then PROFILE_DEFAULTS
      else case db_fault m of
        Some msg \<Rightarrow> PROFILE_DEFAULTS
      | None \<Rightarrow>
          (case filter (\<lambda>p. p_server_id p = or_global server \<and> p_user_id p = user)
                       (user_profiles (db m)) of
             [] \<Rightarrow> PROFILE_DEFAULTS
           | p # ps \<Rightarrow> (case p_data p of None \<Rightarrow> PROFILE_DEFAULTS | Some kv \<Rightarrow> kv)))"

text \<open>\<^verbatim>\<open>get_relationship\<close>; the pair of users is looked up in sorted order.\<close>

definition get_relationship ::
  "causal_memory \<Rightarrow> string \<Rightarrow> string \<Rightarrow> string \<Rightarrow> (string \<times> real) list" where
  "get_relationship m server user_a user_b =
     (if disabled_due_to_size m then RELATIONSHIP_DEFAULTS
      else case db_fault m of
        Some msg \<Rightarrow> RELATIONSHIP_DEFAULTS
      | None \<Rightarrow>
          (let key_a = (if user_a \<le> user_b then user_a else user_b);
               key_b = (if user_a \<le> user_b then user_b else user_a)
           in case filter (\<lambda>r. r_server_id r = or_global server \<and> r_user_a r = key_a \<and> r_user_b r = key_b)
                          (relationships (db m)) of
                [] \<Rightarrow> RELATIONSHIP_DEFAULTS
              | r # rs \<Rightarrow> (case r_data r of None \<Rightarrow> RELATIONSHIP_DEFAULTS | Some kv \<Rightarrow> kv)))"

subsection \<open>Series of writes\<close>

text \<open>
  A series of calls of \<^verbatim>\<open>_execute_write\<close>, each with its clock readings, table
  and writer.  The second component collects the timestamps of the committed
  writes, oldest first.
\<close>

type_synonym write_call = "write_clock \<times> string \<times> (database \<Rightarrow> py_error + database)"

fun run_writes :: "write_call list \<Rightarrow> causal_memory \<times> time list \<Rightarrow> causal_memory \<times> time list" where
  "run_writes [] (m, stamps) = (m, stamps)"
| "run_writes ((k, t, w) # cs) (m, stamps) =
     (case execute_write k t w m of
        (m', None) \<Rightarrow> run_writes cs (m', stamps)
      | (m', Some c) \<Rightarrow> run_writes cs (m', stamps @ [c]))"

text \<open>The time that \<^verbatim>\<open>_prune_writes\<close> works with: \<^verbatim>\<open>now or time.time()\<close>.\<close>

definition effective_now :: "write_clock \<Rightarrow> time" where
  "effective_now k = (if t_now k = 0 then t_prune k else t_now k)"

text \<open>
  A clock that does not run backwards: within a call the commit is stamped no
  earlier than the pruning, and a call prunes no earlier than \<open>T\<close>, the commit
  reading of the call before it.
\<close>

fun monotone_calls :: "time \<Rightarrow> write_call list \<Rightarrow> bool" where
  "monotone_calls T [] = True"
| "monotone_calls T ((k, t, w) # cs) =
     (T \<le> effective_now k \<and> effective_now k \<le> t_commit k \<and> monotone_calls (t_commit k) cs)"

text \<open>The committed writes inside the closed one-second window that starts at \<open>a\<close>.\<close>

definition in_second :: "time \<Rightarrow> time list \<Rightarrow> time list" where
  "in_second a stamps = filter (\<lambda>x. a \<le> x \<and> x \<le> a + 1) stamps"

text \<open>
  The invariant of a series of writes, with \<open>T\<close> the latest commit reading:
  the deque \<^verbatim>\<open>_write_timestamps\<close> is the tail of the committed timestamps, what was
  popped from it is more than a second older than \<open>T\<close>, and no one-second
  window holds more committed writes than the configured maximum.
\<close>

definition rate_inv :: "causal_memory \<Rightarrow> time list \<Rightarrow> time \<Rightarrow> bool" where
  "rate_inv m stamps T \<longleftrightarrow>
     (\<exists>old. stamps = old @ write_timestamps m \<and> (\<forall>x \<in> set old. x < T - 1))
   \<and> (\<forall>a. int (length (in_second a stamps)) \<le> max 0 (memory_max_writes_per_second (config m)))"

subsection \<open>Test data\<close>

text \<open>
  The record that \<^verbatim>\<open>tests/test_memory.py\<close> writes (server \<^verbatim>\<open>global\<close>, decision
  \<^verbatim>\<open>observe\<close>, confidence delta 0.1) with timestamp \<open>t\<close> and row id \<open>i\<close>, and a
  clock that shows \<open>t\<close> at every reading of one call.
\<close>

definition sample_row :: "int \<Rightarrow> time \<Rightarrow> memory_row" where
  "sample_row i t =
     \<lparr>row_id = i, server_id = ''global'', stimulus_type = ''discord_message'',
      row_context = ''{}'', interpretations = ''{}'', decision = ''observe'',
      action = ''{}'', outcome = ''{}'', confidence_delta = 1 / 10, ts = t\<rparr>"

definition steady_clock :: "time \<Rightarrow> write_clock" where
  "steady_clock t =
     \<lparr>t_allow = t, t_allow_tripped = t, t_now = t, t_prune = t, t_commit = t,
      t_result = t, t_result_tripped = t\<rparr>"

text \<open>
  The configuration and the store of \<^verbatim>\<open>test_memory_record_rotation_and_shared_context\<close>:
  hot row cap 3, rotation chunk 2, and six records with the timestamps 1 to 6.
\<close>

definition test_config :: runtime_config where
  "test_config =
     default_config\<lparr>memory_retention_limit := 6, memory_retention_window_seconds := 3600,
                    hot_memory_row_cap := 3, hot_rotation_chunk := 2,
                    memory_max_writes_per_second := 20,
                    memory_table_limits := Some [(''memory'', 6), (''user_profiles'', 5),
                       (''relationships'', 5), (''shared_context'', 5), (''user_important'', 5),
                       (''server_profiles'', 5), (''server_events'', 5), (''admin_policies'', 5)]\<rparr>"

definition six_rows :: "memory_row list" where
  "six_rows = [sample_row 1 1, sample_row 2 2, sample_row 3 3,
               sample_row 4 4, sample_row 5 5, sample_row 6 6]"

definition test_store :: causal_memory where
  "test_store =
     CausalMemory test_config True FileNotFound
       (empty_database\<lparr>memory := six_rows, next_id := 7\<rparr>) None []"

section \<open>Governor (vyxen\_core/governor.py)\<close>

record action_intent =
  intent_type :: string
  target_id :: "int option"
  payload :: "(string \<times> string) list"
  metadata :: "(string \<times> string) list"
  created_at :: time

record reality_output =
  reality :: string
  recommended_action :: "action_intent option"
  confidence :: real
  risk :: real
  justification :: string

record governor_decision =
  dec_action :: action_intent
  dec_confidence :: real
  dec_risk :: real
  rationale :: string

text \<open>\<^verbatim>\<open>IdentityCore\<close>: the dictionary \<^verbatim>\<open>values\<close> of traits; a missing key raises \<^verbatim>\<open>KeyError\<close>.\<close>

record identity_core =
  trait_values :: "(string \<times> real) list"
  allow_persistence :: bool

definition trait :: "identity_core \<Rightarrow> string \<Rightarrow> py_error + real" where
  "trait idn k = (case map_of (trait_values idn) k of None \<Rightarrow> Inl (KeyError k) | Some v \<Rightarrow> Inr v)"

text \<open>\<^verbatim>\<open>_score(output, memory_bias)\<close>.\<close>

definition score :: "identity_core \<Rightarrow> reality_output \<Rightarrow> real \<Rightarrow> py_error + real" where
  "score idn out memory_bias =
     (case trait idn ''assertiveness'' of
        Inl e \<Rightarrow> Inl e
      | Inr assertiveness \<Rightarrow>
     (case trait idn ''caution'' of
        Inl e \<Rightarrow> Inl e
      | Inr caution \<Rightarrow>
     (case trait idn ''curiosity'' of
        Inl e \<Rightarrow> Inl e
      | Inr curiosity \<Rightarrow>
          (let base = confidence out * (1 - risk out);
               modulation = 1 + 0.2 * (assertiveness - caution) + 0.1 * curiosity + memory_bias
           in Inr (base * modulation)))))"

text \<open>The \<^verbatim>\<open>observe\<close> intent that \<^verbatim>\<open>deliberate\<close> builds first; \<open>clock\<close> is its \<^verbatim>\<open>created_at\<close>.\<close>

definition fallback :: "time \<Rightarrow> action_intent" where
  "fallback clock = \<lparr>intent_type = ''observe'', target_id = None, payload = [], metadata = [],
                     created_at = clock\<rparr>"

definition decision_of :: "reality_output \<Rightarrow> action_intent \<Rightarrow> governor_decision" where
  "decision_of out a = \<lparr>dec_action = a, dec_confidence = confidence out, dec_risk = risk out,
                        rationale = justification out\<rparr>"

text \<open>
  The loop over the strategy outputs, with the pair \<^verbatim>\<open>(best, best_score)\<close> as its
  state.  An exception of \<^verbatim>\<open>_score\<close> ends the loop and the call.
\<close>

fun select_best ::
  "identity_core \<Rightarrow> real \<Rightarrow> reality_output list \<Rightarrow> governor_decision option \<times> real
     \<Rightarrow> py_error + (governor_decision option \<times> real)" where
  "select_best idn mb [] acc = Inr acc"
| "select_best idn mb (out # outs) (best, best_score) =
     (case recommended_action out of
        None \<Rightarrow> select_best idn mb outs (best, best_score)
      | Some a \<Rightarrow>
          (case score idn out mb of
             Inl e \<Rightarrow> Inl e
           | Inr s \<Rightarrow>
               if s > best_score
               then select_best idn mb outs (Some (decision_of out a), s)
               else select_best idn mb outs (best, best_score)))"

text \<open>\<^verbatim>\<open>memory_bias\<close> from the entries that \<^verbatim>\<open>fetch_recent\<close> returned.\<close>

definition memory_bias_of :: "memory_row list \<Rightarrow> real" where
  "memory_bias_of recent =
     (if recent \<noteq> [] then sum_list (map confidence_delta recent) / real (length recent) else 0)"

definition ambient_decision :: "time \<Rightarrow> governor_decision" where
  "ambient_decision clock =
     \<lparr>dec_action = fallback clock, dec_confidence = 0.35, dec_risk = 0.05,
      rationale = ''Ambient stimulus without active session or mention.''\<rparr>"

definition no_recommendation :: "time \<Rightarrow> governor_decision" where
  "no_recommendation clock =
     \<lparr>dec_action = fallback clock, dec_confidence = 0.3, dec_risk = 0.1,
      rationale = ''No strong recommendation; choosing deliberate observation.''\<rparr>"

definition risk_override :: "time \<Rightarrow> governor_decision" where
  "risk_override clock =
     \<lparr>dec_action = fallback clock, dec_confidence = 0.4, dec_risk = 0.05,
      rationale = ''Risk exceeded confidence; opting to hold position.''\<rparr>"

text \<open>\<^verbatim>\<open>deliberate(server_id, realities, directed)\<close> of a governor with identity \<open>idn\<close> and store \<open>m\<close>.\<close>

definition deliberate ::
  "identity_core \<Rightarrow> causal_memory \<Rightarrow> time \<Rightarrow> string \<Rightarrow> reality_output list \<Rightarrow> bool
     \<Rightarrow> py_error + governor_decision" where
  "deliberate idn m clock server realities directed =
     (if \<not> directed then Inr (ambient_decision clock)
      else case fetch_recent m server 6 of
        Inl e \<Rightarrow> Inl e
      | Inr recent \<Rightarrow>
          (let memory_bias = memory_bias_of recent
           in case select_best idn memory_bias realities (None, - 1) of
                Inl e \<Rightarrow> Inl e
              | Inr (None, best_score) \<Rightarrow> Inr (no_recommendation clock)
              | Inr (Some best, best_score) \<Rightarrow>
                  (let risk_threshold = 0.7 - memory_bias * 0.2
                   in if dec_risk best > risk_threshold \<and> dec_confidence best < 0.7
                      then Inr (risk_override clock)
                      else Inr best)))"

text \<open>
  The bias that a directed call computes for a server, and the test of the
  safety override on a pair of risk and confidence.
\<close>

definition governor_memory_bias :: "causal_memory \<Rightarrow> string \<Rightarrow> real" where
  "governor_memory_bias m server =
     (case fetch_recent m server 6 of Inl e \<Rightarrow> 0 | Inr recent \<Rightarrow> memory_bias_of recent)"

definition exceeds :: "real \<Rightarrow> real \<Rightarrow> real \<Rightarrow> bool" where
  "exceeds mb r c = (r > 0.7 - 0.2 * mb \<and> c < 0.7)"

text \<open>The neutral identity that \<^verbatim>\<open>IdentityCore.load\<close> builds for an empty trait table.\<close>

definition neutral_identity :: identity_core where
  "neutral_identity =
     \<lparr>trait_values = [(''assertiveness'', 0.5), (''playfulness'', 0.5), (''caution'', 0.5),
                      (''curiosity'', 0.5), (''patience'', 0.5)],
      allow_persistence = True\<rparr>"

text \<open>
  The strategy outputs that recommend an action, and the score of the
  specification: \<open>confidence * (1 - risk) * modulation\<close> with
  \<open>modulation = 1 + 0.2 * (assertiveness - caution) + 0.1 * curiosity + memory_bias\<close>.
\<close>

definition candidates :: "reality_output list \<Rightarrow> reality_output list" where
  "candidates outs = filter (\<lambda>out. recommended_action out \<noteq> None) outs"

definition spec_score :: "real \<Rightarrow> real \<Rightarrow> real \<Rightarrow> real \<Rightarrow> reality_output \<Rightarrow> real" where
  "spec_score assertiveness caution curiosity memory_bias out =
     confidence out * (1 - risk out)
       * (1 + 0.2 * (assertiveness - caution) + 0.1 * curiosity + memory_bias)"


text \<open>The records of a server in the hot table, in the order of the table.\<close>

definition server_rows :: "causal_memory \<Rightarrow> string \<Rightarrow> memory_row list" where
  "server_rows m server = filter (\<lambda>r. server_id r = server) (memory (db m))"

subsection \<open>Test data\<close>

text \<open>
  A store with seven records of the server \<^verbatim>\<open>guild\<close> and one of another server,
  not in the order of their timestamps; the records 1 and 4 share the oldest
  timestamp.  Three strategy outputs: one without an action and two candidates,
  the better one first.
\<close>

definition guild_row :: "int \<Rightarrow> string \<Rightarrow> time \<Rightarrow> real \<Rightarrow> memory_row" where
  "guild_row i server t delta = (sample_row i t)\<lparr>server_id := server, confidence_delta := delta\<rparr>"

definition eight_rows :: "memory_row list" where
  "eight_rows =
     [guild_row 1 ''guild'' 20 (1 / 2), guild_row 2 ''other'' 50 1,
      guild_row 3 ''guild'' 30 (1 / 2), guild_row 4 ''guild'' 20 0,
      guild_row 5 ''guild'' 40 0, guild_row 6 ''guild'' 60 0,
      guild_row 7 ''guild'' 50 0, guild_row 8 ''guild'' 70 (1 / 2)]"

definition guild_store :: causal_memory where
  "guild_store =
     CausalMemory default_config True FileNotFound
       (empty_database\<lparr>memory := eight_rows, next_id := 9\<rparr>) None []"

definition reply_intent :: action_intent where
  "reply_intent = \<lparr>intent_type = ''reply'', target_id = Some 99, payload = [],
                    metadata = [], created_at = 9\<rparr>"

definition tool_intent :: action_intent where
  "tool_intent = \<lparr>intent_type = ''tool_call'', target_id = None, payload = [],
                   metadata = [], created_at = 9\<rparr>"

definition quiet_output :: reality_output where
  "quiet_output = \<lparr>reality = ''moderation'', recommended_action = None,
                    confidence = 9 / 10, risk = 0, justification = ''nothing to do''\<rparr>"

definition tool_output :: reality_output where
  "tool_output = \<lparr>reality = ''tools'', recommended_action = Some tool_intent,
                   confidence = 4 / 5, risk = 1 / 5, justification = ''tool fits''\<rparr>"

definition reply_output :: reality_output where
  "reply_output = \<lparr>reality = ''social'', recommended_action = Some reply_intent,
                    confidence = 1 / 2, risk = 1 / 5, justification = ''answer''\<rparr>"

text \<open>
  A store whose only record of the server carries the confidence delta \<open>- 3\<close>,
  and a candidate with confidence 1 and risk 0.
\<close>

definition sour_store :: causal_memory where
  "sour_store =
     CausalMemory default_config True FileNotFound
       (empty_database\<lparr>memory := [guild_row 1 ''guild'' 10 (- 3)], next_id := 2\<rparr>) None []"

definition sure_output :: reality_output where
  "sure_output = \<lparr>reality = ''social'', recommended_action = Some reply_intent,
                   confidence = 1, risk = 0, justification = ''certain''\<rparr>"
section \<open>CognitionLoop and safe mode (vyxen\_core/cognition.py)\<close>

text \<open>
  The part of the loop's state that its safety steps read or write: the flag
  \<^verbatim>\<open>state.safe_mode\<close> and the notes of \<^verbatim>\<open>InternalState\<close>, the diagnostics of
  \<^verbatim>\<open>SafetyDiagnostics\<close>, the tick interval override, the log-ingestion switch
  with its breaker, and the memory store.
\<close>

record core_state =
  safe_mode :: bool
  overrun_note :: string
  watchdog_note :: string
  llm_calls_remaining :: int
  last_overrun_reason :: string
  last_watchdog_reason :: string
  log_ingest_disabled :: bool
  log_ingestion_disabled :: bool
  tick_interval_override :: "real option"
  pm2_breaker :: circuit_breaker
  store :: causal_memory

text \<open>\<^verbatim>\<open>_record_overrun(reason)\<close>.\<close>

definition record_overrun :: "string \<Rightarrow> core_state \<Rightarrow> core_state" where
  "record_overrun rsn s =
     s\<lparr>overrun_note := rsn, safe_mode := True,
       store := (store s)\<lparr>allow_writes := False\<rparr>,
       last_overrun_reason := rsn\<rparr>"



















section \<open>SessionStore (vyxen\_core/conversation.py)\<close>

record conversation_session =
  user_id :: int
  channel_id :: int
  guild_id :: string
  session_start :: time
  last_interaction :: time
  active :: bool
  expires_at :: time
  message_count :: int

definition expired :: "conversation_session \<Rightarrow> time \<Rightarrow> bool" where
  "expired s now = (now \<ge> expires_at s)"

text \<open>
  Python dictionaries keep their keys in insertion order: assigning to a key
  that is present keeps its place, assigning to a new key appends it, \<^verbatim>\<open>pop\<close>
  removes it.
\<close>

definition dict_get :: "('k \<times> 'v) list \<Rightarrow> 'k \<Rightarrow> 'v option" where
  "dict_get d k = map_of d k"

definition dict_set :: "('k \<times> 'v) list \<Rightarrow> 'k \<Rightarrow> 'v \<Rightarrow> ('k \<times> 'v) list" where
  "dict_set d k v =
     (if k \<in> set (map fst d) then map (\<lambda>(k', v'). if k' = k then (k', v) else (k', v')) d
      else d @ [(k, v)])"

definition dict_pop :: "('k \<times> 'v) list \<Rightarrow> 'k \<Rightarrow> ('k \<times> 'v) list" where
  "dict_pop d k = filter (\<lambda>(k', v'). k' \<noteq> k) d"

text \<open>
  The two dictionaries of the store hold references to session objects, and
  one object can be reached from both.  The model keeps the objects in
  \<open>heap\<close>, by address, and the dictionaries hold addresses; \<open>next_addr\<close> is the
  address of the next object to be created.
\<close>

type_synonym addr = nat

record session_store =
  ttl_seconds :: real
  heap :: "addr \<Rightarrow> conversation_session"
  next_addr :: addr
  sessions :: "((int \<times> string \<times> int) \<times> addr) list"
  active_by_channel :: "((string \<times> int) \<times> addr) list"

definition blank_session :: conversation_session where
  "blank_session =
     \<lparr>user_id = 0, channel_id = 0, guild_id = '''', session_start = 0, last_interaction = 0,
      active = True, expires_at = 0, message_count = 0\<rparr>"

definition SessionStore :: "real \<Rightarrow> session_store" where
  "SessionStore ttl =
     \<lparr>ttl_seconds = ttl, heap = (\<lambda>a. blank_session), next_addr = 0, sessions = [],
      active_by_channel = []\<rparr>"

definition session_key :: "int \<Rightarrow> string \<Rightarrow> int \<Rightarrow> int \<times> string \<times> int" where
  "session_key u g c = (u, g, c)"

text \<open>\<^verbatim>\<open>expire_stale()\<close>; \<open>clock\<close> is its own reading of \<^verbatim>\<open>time.time()\<close>.\<close>

definition expire_stale :: "time \<Rightarrow> session_store \<Rightarrow> (addr \<times> string) list \<times> session_store" where
  "expire_stale clock st =
     (map (\<lambda>(k, a). (a, ''timeout''))
          (filter (\<lambda>(k, a). expired (heap st a) clock) (sessions st)),
      st\<lparr>sessions := filter (\<lambda>(k, a). \<not> expired (heap st a) clock) (sessions st)\<rparr>)"

text \<open>The keys of \<^verbatim>\<open>stimulus.context\<close> that \<^verbatim>\<open>route_stimulus\<close> reads.\<close>

record discord_context =
  author_id :: "int option"
  ctx_server_id :: "string option"
  ctx_channel_id :: "int option"
  mentions_bot :: bool
  content :: "string option"

text \<open>The textual tests of \<^verbatim>\<open>_looks_directed\<close>, and the function itself.\<close>

definition names_bot :: "string \<Rightarrow> bool" where
  "names_bot text =
     (startswith text ''vyxen'' \<or> startswith text ''vyxen,'' \<or> startswith text ''vyxen:''
      \<or> startswith text ''vox'' \<or> startswith text ''vox,'' \<or> contains text ''vyxen'')"

definition looks_directed :: "string \<Rightarrow> bool \<Rightarrow> bool" where
  "looks_directed text own_session_live =
     (if text = [] then False
      else if names_bot text then True
      else own_session_live)"

text \<open>
  The two \<^verbatim>\<open>pop\<close> calls that end the active session \<open>a\<close> of a channel: its entry
  under the key of its user, and the entry of the channel.
\<close>

definition drop_channel :: "addr \<Rightarrow> string \<Rightarrow> int \<Rightarrow> session_store \<Rightarrow> session_store" where
  "drop_channel a g c st =
     st\<lparr>sessions := dict_pop (sessions st) (session_key (user_id (heap st a)) g c),
        active_by_channel := dict_pop (active_by_channel st) (g, c)\<rparr>"

text \<open>
  The block ``clear expired active session if present'': the active session of
  the channel that is left, and the store.
\<close>

definition clear_expired_active ::
  "time \<Rightarrow> string \<Rightarrow> int \<Rightarrow> session_store \<Rightarrow> addr option \<times> session_store" where
  "clear_expired_active now g c st =
     (case dict_get (active_by_channel st) (g, c) of
        None \<Rightarrow> (None, st)
      | Some a \<Rightarrow>
          if expired (heap st a) now
          then (None, drop_channel a g c st)
          else (Some a, st))"

text \<open>The refresh of a session object: sliding expiry and one more message.\<close>

definition refresh :: "time \<Rightarrow> addr \<Rightarrow> session_store \<Rightarrow> session_store" where
  "refresh now a st =
     st\<lparr>heap := (heap st)(a := (heap st a)\<lparr>last_interaction := now,
                                             expires_at := now + ttl_seconds st,
                                             message_count := message_count (heap st a) + 1\<rparr>)\<rparr>"

text \<open>The creation of a session for \<open>author\<close>, stored under the author's key.\<close>

definition new_session ::
  "time \<Rightarrow> int \<Rightarrow> string \<Rightarrow> int \<Rightarrow> session_store \<Rightarrow> addr \<times> session_store" where
  "new_session now author g c st =
     (next_addr st,
      st\<lparr>heap := (heap st)(next_addr st :=
             \<lparr>user_id = author, channel_id = c, guild_id = g,
              session_start = now, last_interaction = now,
              active = True, expires_at = now + ttl_seconds st,
              message_count = 1\<rparr>),
         next_addr := Suc (next_addr st),
         sessions := dict_set (sessions st) (session_key author g c) (next_addr st)\<rparr>)"

text \<open>
  The blocks of the directed branch of \<^verbatim>\<open>route_stimulus\<close>: a different user
  supersedes the active session of the channel; the author's own session is
  refreshed when it is not expired and created otherwise; the result becomes
  the active session of the channel.
\<close>

definition supersede ::
  "int \<Rightarrow> string \<Rightarrow> int \<Rightarrow> addr option \<Rightarrow> (addr \<times> string) list \<Rightarrow> session_store
     \<Rightarrow> (addr \<times> string) list \<times> session_store" where
  "supersede author g c active_session ended st =
     (case active_session of
        None \<Rightarrow> (ended, st)
      | Some a \<Rightarrow>
          if user_id (heap st a) \<noteq> author
          then (ended @ [(a, ''superseded'')], drop_channel a g c st)
          else (ended, st))"

definition touch_or_create ::
  "time \<Rightarrow> int \<Rightarrow> string \<Rightarrow> int \<Rightarrow> addr option \<Rightarrow> session_store \<Rightarrow> addr \<times> session_store" where
  "touch_or_create now author g c session st =
     (case session of
        Some a \<Rightarrow>
          if \<not> expired (heap st a) now then (a, refresh now a st)
          else new_session now author g c st
      | None \<Rightarrow> new_session now author g c st)"

definition route_directed ::
  "time \<Rightarrow> int \<Rightarrow> string \<Rightarrow> int \<Rightarrow> addr option \<Rightarrow> addr option \<Rightarrow> (addr \<times> string) list
     \<Rightarrow> session_store \<Rightarrow> string \<times> addr option \<times> (addr \<times> string) list \<times> session_store" where
  "route_directed now author g c active_session session ended st =
     (let (ended', st3) = supersede author g c active_session ended st;
          (a', st4) = touch_or_create now author g c session st3
      in (''directed'', Some a', ended',
          st4\<lparr>active_by_channel := dict_set (active_by_channel st4) (g, c) a'\<rparr>))"

text \<open>The end of \<^verbatim>\<open>route_stimulus\<close>, for a stimulus that was not detected as directed.\<close>

definition route_undirected ::
  "time \<Rightarrow> int \<Rightarrow> addr option \<Rightarrow> (addr \<times> string) list \<Rightarrow> session_store
     \<Rightarrow> string \<times> addr option \<times> (addr \<times> string) list \<times> session_store" where
  "route_undirected now author active_session ended st =
     (case active_session of
        Some a \<Rightarrow>
          if user_id (heap st a) = author
          then (''directed'', Some a, ended, refresh now a st)
          else (''ambient'', None, ended, st)
      | None \<Rightarrow> (''ambient'', None, ended, st))"

text \<open>The guild of a stimulus: \<^verbatim>\<open>context.get("server_id") or "global"\<close>.\<close>

definition guild_of :: "discord_context \<Rightarrow> string" where
  "guild_of ctx = (case ctx_server_id ctx of None \<Rightarrow> ''global''
                   | Some s \<Rightarrow> if s = [] then ''global'' else s)"

text \<open>
  The test \<^verbatim>\<open>detected_direct\<close> of a message of \<open>author\<close>, given the author's own
  session as the store holds it.
\<close>

definition detected_direct :: "time \<Rightarrow> int \<Rightarrow> discord_context \<Rightarrow> addr option \<Rightarrow> session_store \<Rightarrow> bool" where
  "detected_direct now author ctx session st =
     (let text = lower (strip (case content ctx of None \<Rightarrow> [] | Some t \<Rightarrow> t));
          own_live = (case session of
                        None \<Rightarrow> False
                      | Some a \<Rightarrow> \<not> expired (heap st a) now \<and> user_id (heap st a) = author)
      in mentions_bot ctx \<or> looks_directed text own_live)"

text \<open>
  \<^verbatim>\<open>route_stimulus(stimulus)\<close>: the routing label, the session returned, the ended
  sessions with their reasons, and the store.  \<open>now\<close> is the reading of
  \<^verbatim>\<open>time.time()\<close> at the start, \<open>clock\<close> the one that \<^verbatim>\<open>expire_stale\<close> makes after it.
\<close>

definition route_stimulus ::
  "time \<Rightarrow> time \<Rightarrow> discord_context stimulus \<Rightarrow> session_store
     \<Rightarrow> string \<times> addr option \<times> (addr \<times> string) list \<times> session_store" where
  "route_stimulus now clock stim st =
     (let (ended, st1) = expire_stale clock st
      in if stim_type stim \<notin> {''discord_message'', ''attachment''}
         then (''system'', None, ended, st1)
         else
           let ctx = stim_context stim;
               g = guild_of ctx
           in case (author_id ctx, ctx_channel_id ctx) of
                (None, _) \<Rightarrow> (''ambient'', None, ended, st1)
              | (_, None) \<Rightarrow> (''ambient'', None, ended, st1)
              | (Some author, Some c) \<Rightarrow>
                  (let (active_session, st2) = clear_expired_active now g c st1;
                       session = dict_get (sessions st2) (session_key author g c)
                   in if detected_direct now author ctx session st2
                      then route_directed now author g c active_session session ended st2
                      else route_undirected now author active_session ended st2))"

text \<open>A series of routed stimuli, each with its two clock readings.\<close>

fun route_all :: "(time \<times> time \<times> discord_context stimulus) list \<Rightarrow> session_store \<Rightarrow> session_store" where
  "route_all [] st = st"
| "route_all ((now, clock, stim) # rest) st =
     route_all rest (snd (snd (snd (route_stimulus now clock stim st))))"

text \<open>
  The sessions that the store holds for a channel, and those of them that are
  not expired at \<open>now\<close>.
\<close>

definition channel_sessions :: "session_store \<Rightarrow> string \<Rightarrow> int \<Rightarrow> addr list" where
  "channel_sessions st g c =
     map snd (filter (\<lambda>((u, g', c'), a). g' = g \<and> c' = c) (sessions st))"

definition live_sessions :: "session_store \<Rightarrow> time \<Rightarrow> string \<Rightarrow> int \<Rightarrow> addr list" where
  "live_sessions st now g c =
     filter (\<lambda>a. \<not> expired (heap st a) now) (channel_sessions st g c)"

text \<open>
  The invariant of the store.  The keys of each dictionary are distinct.  A
  session held under the key of a user is an allocated object whose identity
  fields are those of the key, and it is the object registered as the active
  session of its channel.  An object registered for a channel is allocated and
  belongs to that channel.
\<close>

definition store_inv :: "session_store \<Rightarrow> bool" where
  "store_inv st \<longleftrightarrow>
     distinct (map fst (sessions st)) \<and> distinct (map fst (active_by_channel st))
   \<and> (\<forall>u g c a. ((u, g, c), a) \<in> set (sessions st) \<longrightarrow>
          a < next_addr st \<and> user_id (heap st a) = u \<and> guild_id (heap st a) = g
        \<and> channel_id (heap st a) = c \<and> ((g, c), a) \<in> set (active_by_channel st))
   \<and> (\<forall>g c a. ((g, c), a) \<in> set (active_by_channel st) \<longrightarrow>
          a < next_addr st \<and> guild_id (heap st a) = g \<and> channel_id (heap st a) = c)"

text \<open>No user other than \<open>author\<close> holds a session in the channel.\<close>

definition channel_clean :: "int \<Rightarrow> string \<Rightarrow> int \<Rightarrow> session_store \<Rightarrow> bool" where
  "channel_clean author g c st \<longleftrightarrow> (\<forall>u b. ((u, g, c), b) \<in> set (sessions st) \<longrightarrow> u = author)"

subsection \<open>Test data\<close>

text \<open>
  The mention of \<^verbatim>\<open>tests/test_session_store.py\<close>: a message of user \<open>u\<close> in channel 99
  of the server \<^verbatim>\<open>guild\<close> that mentions the bot.
\<close>

definition mention_from :: "int \<Rightarrow> discord_context stimulus" where
  "mention_from u =
     \<lparr>stim_type = ''discord_message'', source = ''discord'',
      stim_context = \<lparr>author_id = Some u, ctx_server_id = Some ''guild'', ctx_channel_id = Some 99,
                      mentions_bot = True, content = None\<rparr>,
      salience = 3 / 5, routing = ''ambient'', timestamp = 0\<rparr>"
section \<open>Facts about the breaker\<close>

lemma prune_monotone_clock:
  assumes "now \<le> clock"
  shows "prune now clock b =
           b\<lparr>failures := dropWhile (\<lambda>f. now - f > window_seconds b) (failures b)\<rparr>"
  using assms by (auto simp add: prune_def tripped_def Let_def)

lemma filter_dropWhile_neg:
  "filter (\<lambda>x. \<not> P x) (dropWhile P xs) = filter (\<lambda>x. \<not> P x) xs"
  by (induction xs) auto

lemma dropWhile_weaker:
  assumes "\<And>x. P x \<Longrightarrow> Q x"
  shows "dropWhile Q (dropWhile P xs @ ys) = dropWhile Q (xs @ ys)"
  using assms by (induction xs) auto

text \<open>
  Claim C10.  With a clock that does not run backwards between the two readings
  of one call, \<open>record_success\<close> keeps every failure timestamp that is still
  inside the window (same timestamps, same order, same number), never changes
  \<open>tripped_until\<close> nor the configuration, only drops the expired timestamps at
  the left end of the deque, and clears the reason exactly when the pruned
  deque is empty.  Hence a failure recorded later meets the same failure deque
  and the same trip deadline whether or not the success was recorded in between.
\<close>

theorem record_success_frame:
  assumes "now \<le> clock"
  shows "filter (in_window b now) (failures (record_success now clock b))
           = filter (in_window b now) (failures b)
       \<and> failures (record_success now clock b)
           = dropWhile (\<lambda>f. now - f > window_seconds b) (failures b)
       \<and> tripped_until (record_success now clock b) = tripped_until b
       \<and> reason (record_success now clock b)
           = (if failures (record_success now clock b) = [] then '''' else reason b)
       \<and> threshold (record_success now clock b) = threshold b
       \<and> window_seconds (record_success now clock b) = window_seconds b
       \<and> cooldown_seconds (record_success now clock b) = cooldown_seconds b
       \<and> name (record_success now clock b) = name b
       \<and> (\<forall>now' clock' rsn. now \<le> now' \<and> now' \<le> clock' \<longrightarrow>
             failures (record_failure rsn now' clock' (record_success now clock b))
               = failures (record_failure rsn now' clock' b)
           \<and> tripped_until (record_failure rsn now' clock' (record_success now clock b))
               = tripped_until (record_failure rsn now' clock' b))"
proof -
  let ?P = "\<lambda>f. now - f > window_seconds b"
  have fs: "failures (record_success now clock b) = dropWhile ?P (failures b)"
    using assms by (simp add: record_success_def prune_monotone_clock Let_def)
  have keep: "filter (in_window b now) (dropWhile ?P (failures b))
                = filter (in_window b now) (failures b)"
    unfolding in_window_def by (rule filter_dropWhile_neg)
  have rest: "tripped_until (record_success now clock b) = tripped_until b
       \<and> reason (record_success now clock b)
           = (if failures (record_success now clock b) = [] then '''' else reason b)
       \<and> threshold (record_success now clock b) = threshold b
       \<and> window_seconds (record_success now clock b) = window_seconds b
       \<and> cooldown_seconds (record_success now clock b) = cooldown_seconds b
       \<and> name (record_success now clock b) = name b"
    using assms by (auto simp add: record_success_def prune_monotone_clock Let_def)
  have later: "failures (record_failure rsn now' clock' (record_success now clock b))
               = failures (record_failure rsn now' clock' b)
           \<and> tripped_until (record_failure rsn now' clock' (record_success now clock b))
               = tripped_until (record_failure rsn now' clock' b)"
    if le: "now \<le> now'" "now' \<le> clock'" for now' clock' rsn
  proof -
    let ?Q = "\<lambda>f. now' - f > window_seconds b"
    have "dropWhile ?Q (dropWhile ?P (failures b) @ [now'])
            = dropWhile ?Q (failures b @ [now'])"
      by (rule dropWhile_weaker) (use le in simp)
    then show ?thesis
      using le rest fs
      by (simp add: record_failure_def prune_monotone_clock Let_def)
  qed
  show ?thesis
    using fs keep rest later by simp
qed


subsection \<open>Tripping and recovery\<close>

lemma allow_flag: "fst (allow t c b) = (tripped_until b \<le> t)"
  by (auto simp add: allow_def prune_def Let_def)

lemma allow_keeps_deadline: "tripped_until (snd (allow t c b)) = tripped_until b"
  by (auto simp add: allow_def prune_def Let_def)

lemma record_failure_monotone_clock:
  assumes "now \<le> clock"
  shows "failures (record_failure rsn now clock b)
           = dropWhile (\<lambda>f. now - f > window_seconds b) (failures b @ [now])"
    and "tripped_until (record_failure rsn now clock b)
           = (if int (length (dropWhile (\<lambda>f. now - f > window_seconds b) (failures b @ [now])))
                   \<ge> threshold b
              then now + cooldown_seconds b else tripped_until b)"
    and "threshold (record_failure rsn now clock b) = threshold b"
    and "window_seconds (record_failure rsn now clock b) = window_seconds b"
    and "cooldown_seconds (record_failure rsn now clock b) = cooldown_seconds b"
  using assms by (simp_all add: record_failure_def prune_monotone_clock Let_def)

lemma record_failures_snoc:
  "record_failures (cs @ [(rsn, now, clock)]) b = record_failure rsn now clock (record_failures cs b)"
  by (induction cs arbitrary: b) auto

lemma record_failures_config:
  assumes "\<forall>c \<in> set calls. call_now c \<le> call_clock c"
  shows "threshold (record_failures calls b) = threshold b
       \<and> window_seconds (record_failures calls b) = window_seconds b
       \<and> cooldown_seconds (record_failures calls b) = cooldown_seconds b"
  using assms
proof (induction calls arbitrary: b)
  case Nil
  then show ?case by simp
next
  case (Cons x xs)
  obtain r n c where x: "x = (r, n, c)" by (cases x) auto
  from Cons.prems have nc: "n \<le> c" by (simp add: x call_now_def call_clock_def)
  from Cons.prems have rest: "\<forall>c \<in> set xs. call_now c \<le> call_clock c" by simp
  show ?case
    using Cons.IH [OF rest, of "record_failure r n c b"] record_failure_monotone_clock(3-5) [OF nc]
    by (simp add: x)
qed

lemma dropWhile_keeps_suffix:
  assumes "\<forall>y \<in> set ys. \<not> P y"
  shows "\<exists>pre'. dropWhile P (pre @ ys) = pre' @ ys"
proof (induction pre)
  case Nil
  have "dropWhile P ys = ys"
    using assms by (cases ys) auto
  then show ?case by simp
next
  case (Cons a pre)
  then show ?case
    by (cases "P a") (auto intro: exI [of _ "a # pre"])
qed

lemma record_failures_suffix:
  assumes "\<forall>c \<in> set calls. call_now c \<le> call_clock c"
    and "\<forall>c \<in> set calls. call_now c \<le> T \<and> T - call_now c \<le> window_seconds b"
  shows "\<exists>pre. failures (record_failures calls b) = pre @ map call_now calls"
  using assms
proof (induction calls rule: rev_induct)
  case Nil
  then show ?case by simp
next
  case (snoc x cs)
  obtain r n c where x: "x = (r, n, c)" by (cases x) auto
  from snoc.prems have nc: "n \<le> c" and nT: "n \<le> T"
    by (simp_all add: x call_now_def call_clock_def)
  from snoc.prems have clk: "\<forall>c \<in> set cs. call_now c \<le> call_clock c"
    and win: "\<forall>c \<in> set cs. call_now c \<le> T \<and> T - call_now c \<le> window_seconds b"
    by simp_all
  from snoc.IH [OF clk win] obtain pre
    where pre: "failures (record_failures cs b) = pre @ map call_now cs" by blast
  let ?b0 = "record_failures cs b"
  have w0: "window_seconds ?b0 = window_seconds b"
    using record_failures_config [OF clk] by simp
  have fresh: "\<forall>y \<in> set (map call_now cs @ [n]). \<not> n - y > window_seconds b"
    using win nT snoc.prems(2) by (auto simp add: x call_now_def)
  obtain pre' where "dropWhile (\<lambda>f. n - f > window_seconds b) (pre @ (map call_now cs @ [n]))
                       = pre' @ (map call_now cs @ [n])"
    using dropWhile_keeps_suffix [OF fresh] by blast
  then have "failures (record_failure r n c ?b0) = pre' @ map call_now (cs @ [x])"
    using record_failure_monotone_clock(1) [OF nc, of r ?b0] pre w0
    by (simp add: x call_now_def)
  then show ?case
    by (auto simp add: x record_failures_snoc)
qed

text \<open>
  Claim C2, as amended.  Take a breaker with a positive cooldown and a series
  of at least \<open>threshold\<close> calls of \<open>record_failure\<close> that all fall inside
  \<open>window_seconds\<close> of the last one, made at time \<open>T\<close> (each call with a clock
  that does not run backwards).  After the last call the breaker is tripped
  until \<open>T + cooldown_seconds\<close>: \<open>allow\<close> answers false at \<open>T\<close> itself and at
  every time before \<open>T + cooldown_seconds\<close>, and answers true at every time from
  \<open>T + cooldown_seconds\<close> on, this instant included.
\<close>

theorem breaker_trips_and_recovers:
  assumes "0 < cooldown_seconds b"
    and "calls \<noteq> []"
    and "threshold b \<le> int (length calls)"
    and "T = call_now (last calls)"
    and "\<forall>c \<in> set calls. call_now c \<le> call_clock c"
    and "\<forall>c \<in> set calls. call_now c \<le> T \<and> T - call_now c \<le> window_seconds b"
  shows "tripped_until (record_failures calls b) = T + cooldown_seconds b
       \<and> fst (allow T clock (record_failures calls b)) = False
       \<and> (\<forall>t clock'. fst (allow t clock' (record_failures calls b))
                        = (T + cooldown_seconds b \<le> t))"
proof -
  from assms(2) obtain cs x where calls: "calls = cs @ [x]"
    by (cases calls rule: rev_cases) auto
  obtain r n c where x: "x = (r, n, c)" by (cases x) auto
  have T: "T = n" using assms(4) by (simp add: calls x call_now_def)
  have nc: "n \<le> c" using assms(5) by (simp add: calls x call_now_def call_clock_def)
  have clk: "\<forall>c \<in> set cs. call_now c \<le> call_clock c" using assms(5) by (simp add: calls)
  let ?b0 = "record_failures cs b"
  have cfg: "threshold ?b0 = threshold b" "window_seconds ?b0 = window_seconds b"
    "cooldown_seconds ?b0 = cooldown_seconds b"
    using record_failures_config [OF clk] by simp_all
  obtain pre where pre: "failures (record_failures calls b) = pre @ map call_now calls"
    using record_failures_suffix [OF assms(5) assms(6)] by blast
  have fs: "failures (record_failures calls b)
              = dropWhile (\<lambda>f. n - f > window_seconds b) (failures ?b0 @ [n])"
    using record_failure_monotone_clock(1) [OF nc, of r ?b0] cfg
    by (simp add: calls x record_failures_snoc)
  have "int (length calls) \<le> int (length (failures (record_failures calls b)))"
    by (simp add: pre)
  then have enough: "threshold b
      \<le> int (length (dropWhile (\<lambda>f. n - f > window_seconds b) (failures ?b0 @ [n])))"
    using assms(3) fs by simp
  have deadline: "tripped_until (record_failures calls b) = T + cooldown_seconds b"
    using record_failure_monotone_clock(2) [OF nc, of r ?b0] cfg enough
    by (simp add: calls x record_failures_snoc T)
  show ?thesis
    using deadline assms(1) by (simp add: allow_flag)
qed

theorem breaker_trips_and_recovers_witness:
  "fst (allow 1000 1000
         (record_failures [(''first'', 1000, 1000), (''second'', 1000, 1000)]
            (CircuitBreaker ''test'' 2 10 5))) = False
 \<and> fst (allow 1006 1006
         (record_failures [(''first'', 1000, 1000), (''second'', 1000, 1000)]
            (CircuitBreaker ''test'' 2 10 5))) = True"
  using breaker_trips_and_recovers
    [of "CircuitBreaker ''test'' 2 10 5"
        "[(''first'', 1000, 1000), (''second'', 1000, 1000)]" 1000 1000]
  by (simp add: CircuitBreaker_def call_now_def call_clock_def)

text \<open>
  Claim C2 as stated fails at the example of the specification itself
  (\<open>threshold = 2\<close>, window 10 s, cooldown 5 s, two failures at \<open>t = 1000\<close>):
  at \<open>t = 1005\<close>, when exactly \<open>cooldown_seconds\<close> have elapsed and not more,
  \<open>allow\<close> already answers true; and the check at \<open>t = 1006\<close>, after
  \<open>tripped_until\<close> has passed, leaves both failure timestamps and the stored
  reason in place.
\<close>

theorem breaker_claim_counterexample:
  "fst (allow 1005 1005
         (record_failures [(''first'', 1000, 1000), (''second'', 1000, 1000)]
            (CircuitBreaker ''test'' 2 10 5))) = True
 \<and> failures (snd (allow 1006 1006
         (record_failures [(''first'', 1000, 1000), (''second'', 1000, 1000)]
            (CircuitBreaker ''test'' 2 10 5)))) = [1000, 1000]
 \<and> reason (snd (allow 1006 1006
         (record_failures [(''first'', 1000, 1000), (''second'', 1000, 1000)]
            (CircuitBreaker ''test'' 2 10 5)))) = ''second''"
  by (simp add: CircuitBreaker_def record_failure_def allow_def prune_def tripped_def Let_def)

theorem record_success_frame_witness:
  "failures (record_success 100 100
      ((CircuitBreaker ''memory'' 5 10 180)\<lparr>failures := [0, 95, 99], reason := ''disk''\<rparr>))
     = [95, 99]
 \<and> reason (record_success 100 100
      ((CircuitBreaker ''memory'' 5 10 180)\<lparr>failures := [0, 95, 99], reason := ''disk''\<rparr>))
     = ''disk''
 \<and> tripped_until (record_success 100 100
      ((CircuitBreaker ''memory'' 5 10 180)\<lparr>failures := [0, 95, 99], reason := ''disk''\<rparr>))
     = 0"
  using record_success_frame
    [of 100 100 "(CircuitBreaker ''memory'' 5 10 180)\<lparr>failures := [0, 95, 99], reason := ''disk''\<rparr>"]
  by (simp add: CircuitBreaker_def)

section \<open>Facts about the memory store\<close>

lemma sample_row_sel:
  "row_id (sample_row i t) = i" "server_id (sample_row i t) = ''global''"
  "stimulus_type (sample_row i t) = ''discord_message''" "ts (sample_row i t) = t"
  "decision (sample_row i t) = ''observe''" "outcome (sample_row i t) = ''{}''"
  "confidence_delta (sample_row i t) = 1 / 10"
  by (simp_all add: sample_row_def)

text \<open>
  Claim C3, at a store whose database is locked.  \<^verbatim>\<open>fetch_recent\<close> and \<^verbatim>\<open>echoes\<close>
  run their query outside any \<^verbatim>\<open>try\<close>, so the \<^verbatim>\<open>sqlite3.OperationalError\<close> reaches
  the caller, where the claim promises an empty list; the getters of profiles
  and relationships, which wrap the same query in \<^verbatim>\<open>try ... except Exception\<close>,
  return their defaults.
\<close>

theorem reads_on_locked_database:
  "fetch_recent ((CausalMemory default_config True FileNotFound empty_database None [])
                   \<lparr>db_fault := Some ''database is locked''\<rparr>) ''global'' 10
     = Inl (OperationalError ''database is locked'')
 \<and> echoes ((CausalMemory default_config True FileNotFound empty_database None [])
             \<lparr>db_fault := Some ''database is locked''\<rparr>) 100 ''global''
      \<lparr>stim_type = ''discord_message'', source = ''test'', stim_context = (),
       salience = 1 / 2, routing = ''directed'', timestamp = 100\<rparr> 3
     = Inl (OperationalError ''database is locked'')
 \<and> get_user_profile ((CausalMemory default_config True FileNotFound empty_database None [])
                       \<lparr>db_fault := Some ''database is locked''\<rparr>) ''global'' ''user1''
     = PROFILE_DEFAULTS
 \<and> get_relationship ((CausalMemory default_config True FileNotFound empty_database None [])
                       \<lparr>db_fault := Some ''database is locked''\<rparr>) ''global'' ''user1'' ''user2''
     = RELATIONSHIP_DEFAULTS"
  by (simp add: fetch_recent_def echoes_def get_user_profile_def get_relationship_def
      CausalMemory_def check_size_limit_def)

text \<open>
  Claim C4, on a store created with writes allowed.  A maintenance run that
  finds the file above the ceiling disables the store: reads return the empty
  list and \<^verbatim>\<open>record\<close> is dropped.  A later run that finds the file below the
  ceiling ends the disabled state for reads, which return the stored row
  again, but \<^verbatim>\<open>allow_writes\<close> stays false (the size check cleared it and never
  restores it) and \<^verbatim>\<open>record\<close> is still dropped.
\<close>

theorem writes_stay_rejected_after_size_recovers:
  "(let m0 = CausalMemory default_config True (StatSize 1048576)
               (empty_database\<lparr>memory := [sample_row 1 50], next_id := 2\<rparr>) None [];
        m1 = fst (maintain (StatSize 734003200) 100 m0);
        m2 = fst (maintain (StatSize 1048576) 200 m1)
    in allow_writes m0 \<and> \<not> disabled_due_to_size m0
     \<and> disabled_due_to_size m1 \<and> \<not> allow_writes m1
     \<and> fetch_recent m1 ''global'' 10 = Inr []
     \<and> record_memory (steady_clock 150) 150 (sample_row 0 150) m1 = (m1, None)
     \<and> \<not> disabled_due_to_size m2
     \<and> fetch_recent m2 ''global'' 10 = Inr [sample_row 1 50]
     \<and> \<not> allow_writes m2
     \<and> record_memory (steady_clock 250) 250 (sample_row 0 250) m2 = (m2, None))"
  by (simp add: Let_def CausalMemory_def check_size_limit_def maintain_def default_config_def
      enforce_table_limits_def rotate_old_records_def empty_database_def record_memory_def
      execute_write_def fetch_recent_def sql_limit_def order_by_ts_desc_def
      get_memory_table_limits_def trim_table_def trim_count_def sample_row_sel)

subsection \<open>Maintenance\<close>

lemma check_size_limit_frame:
  "config (check_size_limit st m) = config m"
  "db (check_size_limit st m) = db m"
  "db_fault (check_size_limit st m) = db_fault m"
  "warm_archive (check_size_limit st m) = warm_archive m"
  "table_limits (check_size_limit st m) = table_limits m"
  by (simp_all add: check_size_limit_def Let_def split: stat_result.splits)

lemma rotate_under_cap:
  assumes "int (length (memory (db m))) \<le> hot_memory_row_cap (config m)"
  shows "rotate_old_records clock m = (m, 0)"
  using assms by (simp add: rotate_old_records_def Let_def split: option.splits)

lemma trim_oldest:
  fixes rows :: "memory_row list"
  assumes d: "distinct (map row_id rows)" and k: "k \<le> length rows"
  defines "rows' \<equiv> delete_ids (map row_id (take k (order_by_ts_asc rows))) rows"
  shows "length rows' = length rows - k"
    and "set rows' \<subseteq> set rows"
    and "\<forall>x \<in> set rows - set rows'. \<forall>y \<in> set rows'. ts x \<le> ts y"
proof -
  let ?s = "sort_key ts rows"
  let ?T = "set (take k ?s)"
  have dr: "distinct rows" using d by (rule distinct_map [THEN iffD1, THEN conjunct1])
  have inj: "inj_on row_id (set rows)" using d by (simp add: distinct_map)
  have ds: "distinct ?s" using dr by simp
  have Tsub: "?T \<subseteq> set rows" using set_take_subset [of k ?s] by simp
  have mem: "row_id r \<in> set (map row_id (take k ?s)) \<longleftrightarrow> r \<in> ?T" if "r \<in> set rows" for r
    using that Tsub inj by (auto simp add: inj_on_def)
  have eq: "rows' = filter (\<lambda>r. r \<notin> ?T) rows"
    unfolding rows'_def delete_ids_def order_by_ts_asc_def
  proof (rule filter_cong)
    fix r assume "r \<in> set rows"
    from mem [OF this] show "(row_id r \<notin> set (map row_id (take k ?s))) = (r \<notin> ?T)" by blast
  qed simp
  have cardT: "card ?T = k"
    using ds k distinct_card [of "take k ?s"] by simp
  have "length rows' = card ({r. r \<notin> ?T} \<inter> set rows)"
    unfolding eq using dr by (rule distinct_length_filter)
  also have "{r. r \<notin> ?T} \<inter> set rows = set rows - ?T" by auto
  also have "card (set rows - ?T) = card (set rows) - card ?T"
    using Tsub by (intro card_Diff_subset) auto
  also have "\<dots> = length rows - k"
    using dr cardT by (simp add: distinct_card)
  finally show "length rows' = length rows - k" .
  show "set rows' \<subseteq> set rows" unfolding eq by auto
  have split: "?s = take k ?s @ drop k ?s" by simp
  have "sorted (map ts (take k ?s) @ map ts (drop k ?s))"
    by (simp flip: map_append)
  then have "\<forall>a \<in> set (map ts (take k ?s)). \<forall>b \<in> set (map ts (drop k ?s)). a \<le> b"
    unfolding sorted_append by blast
  then have ord: "\<forall>x \<in> ?T. \<forall>y \<in> set (drop k ?s). ts x \<le> ts y"
    by simp
  have kept: "set rows' = set (drop k ?s)"
  proof -
    have "set rows = ?T \<union> set (drop k ?s)"
      using set_append [of "take k ?s" "drop k ?s"] by simp
    moreover have "?T \<inter> set (drop k ?s) = {}"
      using ds distinct_append [of "take k ?s" "drop k ?s"] by simp
    ultimately show ?thesis unfolding eq by auto
  qed
  have "set rows - set rows' \<subseteq> ?T" unfolding eq by auto
  then show "\<forall>x \<in> set rows - set rows'. \<forall>y \<in> set rows'. ts x \<le> ts y"
    using ord kept by blast
qed

lemma test_store_fields:
  "memory (db test_store) = six_rows" "db_fault test_store = None"
  "hot_memory_row_cap (config test_store) = 3" "hot_rotation_chunk (config test_store) = 2"
  "allow_writes test_store" "\<not> disabled_due_to_size test_store"
  "warm_archive test_store = []" "\<not> archive_fault test_store"
  by (simp_all add: test_store_def CausalMemory_def check_size_limit_def test_config_def
      default_config_def empty_database_def)

lemma six_rows_sorted: "sort_key ts six_rows = six_rows"
  by (simp add: six_rows_def sample_row_sel)

lemma enforce_table_limits_frame:
  "warm_archive (enforce_table_limits m) = warm_archive m"
  "config (enforce_table_limits m) = config m"
  by (simp_all add: enforce_table_limits_def Let_def split: option.splits)

text \<open>
  Claim C1.  When the size ceiling is not exceeded, the database answers, the
  row ids are distinct (they are the primary key) and the hot table holds more
  rows than the cap \<open>C \<ge> 0\<close>, one call of \<open>maintain\<close> leaves exactly \<open>C\<close> rows in
  the hot table; they are rows of the table before the call, and no removed row
  is newer than a row that stays.  The warm archive, however, is what it was
  before the call, and the report counts no rotated row: the trim of
  \<^verbatim>\<open>_enforce_table_limits\<close> has deleted the rows beyond the cap before
  \<^verbatim>\<open>_rotate_old_records\<close> looks for them, so that no removed row is summarised.
\<close>

theorem maintain_trims_without_archiving:
  assumes size_ok: "\<not> disabled_due_to_size (check_size_limit st m)"
    and readable: "db_fault m = None"
    and ids: "distinct (map row_id (memory (db m)))"
    and cap: "0 \<le> hot_memory_row_cap (config m)"
    and over: "hot_memory_row_cap (config m) < int (length (memory (db m)))"
  shows "int (length (memory (db (fst (maintain st clock m))))) = hot_memory_row_cap (config m)
       \<and> set (memory (db (fst (maintain st clock m)))) \<subseteq> set (memory (db m))
       \<and> (\<forall>x \<in> set (memory (db m)) - set (memory (db (fst (maintain st clock m)))).
            \<forall>y \<in> set (memory (db (fst (maintain st clock m)))). ts x \<le> ts y)
       \<and> warm_archive (fst (maintain st clock m)) = warm_archive m
       \<and> rotated (snd (maintain st clock m)) = 0"
proof -
  let ?m1 = "check_size_limit st m"
  let ?rows = "memory (db m)"
  let ?k = "nat (int (length ?rows) - hot_memory_row_cap (config m))"
  let ?rows' = "delete_ids (map row_id (take ?k (order_by_ts_asc ?rows))) ?rows"
  have k: "?k \<le> length ?rows" using cap by simp
  have enf: "memory (db (enforce_table_limits ?m1)) = ?rows'"
    using size_ok readable over
    by (simp add: enforce_table_limits_def check_size_limit_frame Let_def sql_limit_def)
  have cfg: "config (enforce_table_limits ?m1) = config m"
    by (simp add: enforce_table_limits_frame check_size_limit_frame)
  have arch: "warm_archive (enforce_table_limits ?m1) = warm_archive m"
    by (simp add: enforce_table_limits_frame check_size_limit_frame)
  note t = trim_oldest [OF ids k]
  have len: "int (length ?rows') = hot_memory_row_cap (config m)"
    using t(1) over cap by simp
  have rot: "rotate_old_records clock (enforce_table_limits ?m1) = (enforce_table_limits ?m1, 0)"
    by (rule rotate_under_cap) (simp add: enf cfg len)
  have res: "memory (db (fst (maintain st clock m))) = ?rows'"
    using size_ok by (simp add: maintain_def Let_def rot enf)
  have res_arch: "warm_archive (fst (maintain st clock m)) = warm_archive m"
    using size_ok by (simp add: maintain_def Let_def rot arch)
  have res_rot: "rotated (snd (maintain st clock m)) = 0"
    using size_ok by (simp add: maintain_def Let_def rot)
  show ?thesis
    unfolding res using len t(2,3) res_arch res_rot by simp
qed

text \<open>
  The store of the repository's own test (cap 3, chunk 2, six rows, writes
  enabled, small file): \<open>maintain\<close> leaves the three newest rows, reports no
  rotated row, and the warm archive, empty before the call, is still empty
  after it, where the summaries of the three removed rows are expected.
\<close>

theorem maintain_trims_without_archiving_witness:
  "hot_memory_row_cap (config test_store) = 3
 \<and> length (memory (db test_store)) = 6
 \<and> allow_writes test_store
 \<and> \<not> disabled_due_to_size (fst (maintain (StatSize 4096) 10 test_store))
 \<and> map row_id (memory (db (fst (maintain (StatSize 4096) 10 test_store)))) = [4, 5, 6]
 \<and> warm_archive test_store = []
 \<and> warm_archive (fst (maintain (StatSize 4096) 10 test_store)) = []
 \<and> rotated (snd (maintain (StatSize 4096) 10 test_store)) = 0"
proof -
  let ?m1 = "check_size_limit (StatSize 4096) test_store"
  have m1: "?m1 = test_store"
    by (simp add: check_size_limit_def test_store_def CausalMemory_def test_config_def
        default_config_def)
  have a: "\<not> disabled_due_to_size ?m1"
    unfolding m1 by (rule test_store_fields)
  have b: "distinct (map row_id (memory (db test_store)))"
    by (simp add: test_store_fields six_rows_def sample_row_sel)
  have c: "0 \<le> hot_memory_row_cap (config test_store)"
    "hot_memory_row_cap (config test_store) < int (length (memory (db test_store)))"
    by (simp_all add: test_store_fields six_rows_def)
  have enf: "memory (db (enforce_table_limits test_store)) = [sample_row 4 4, sample_row 5 5, sample_row 6 6]"
    "\<not> disabled_due_to_size (enforce_table_limits test_store)"
    by (simp_all add: enforce_table_limits_def test_store_fields Let_def sql_limit_def
        order_by_ts_asc_def six_rows_sorted delete_ids_def)
       (simp_all add: six_rows_def sample_row_sel)
  have rot: "rotate_old_records 10 (enforce_table_limits test_store) = (enforce_table_limits test_store, 0)"
    by (rule rotate_under_cap) (simp add: enf enforce_table_limits_frame test_store_fields)
  have res: "fst (maintain (StatSize 4096) 10 test_store) = enforce_table_limits test_store"
    by (simp add: maintain_def m1 Let_def rot test_store_fields)
  from maintain_trims_without_archiving [OF a test_store_fields(2) b c, of 10]
  have "warm_archive (fst (maintain (StatSize 4096) 10 test_store)) = warm_archive test_store"
    "rotated (snd (maintain (StatSize 4096) 10 test_store)) = 0"
    by blast+
  then show ?thesis
    by (simp add: res enf test_store_fields six_rows_def sample_row_sel)
qed

subsection \<open>The write-rate limiter\<close>

lemma execute_write_cases:
  "(\<exists>m'. execute_write k t w m = (m', None) \<and> config m' = config m \<and> db m' = db m
         \<and> (write_timestamps m' = write_timestamps m
            \<or> write_timestamps m' = prune_writes (t_now k) (t_prune k) (write_timestamps m)))
 \<or> (\<exists>m'. execute_write k t w m = (m', Some (t_commit k)) \<and> config m' = config m
         \<and> write_timestamps m'
              = prune_writes (t_now k) (t_prune k) (write_timestamps m) @ [t_commit k]
         \<and> int (length (prune_writes (t_now k) (t_prune k) (write_timestamps m)))
              < memory_max_writes_per_second (config m))"
  by (auto simp add: execute_write_def Let_def
      split: prod.splits option.splits sum.splits py_error.splits)


lemma prune_writes_split:
  "\<exists>dropped. ws = dropped @ prune_writes now clock ws
      \<and> (\<forall>x \<in> set dropped. x < (if now = 0 then clock else now) - 1)"
proof -
  let ?n = "if now = 0 then clock else now"
  let ?P = "\<lambda>t. ?n - t > 1"
  have "ws = takeWhile ?P ws @ dropWhile ?P ws" by simp
  moreover have "\<forall>x \<in> set (takeWhile ?P ws). x < ?n - 1"
    using set_takeWhileD [of _ ?P ws] by fastforce
  ultimately show ?thesis
    unfolding prune_writes_def Let_def by blast
qed

lemma rate_inv_step:
  assumes inv: "rate_inv m stamps T"
    and clk: "T \<le> effective_now k" "effective_now k \<le> t_commit k"
  shows "(\<exists>m'. execute_write k t w m = (m', None) \<and> rate_inv m' stamps (t_commit k))
       \<or> (\<exists>m'. execute_write k t w m = (m', Some (t_commit k))
                \<and> rate_inv m' (stamps @ [t_commit k]) (t_commit k))"
proof -
  let ?c = "t_commit k"
  let ?n = "effective_now k"
  let ?ws = "write_timestamps m"
  let ?ws' = "prune_writes (t_now k) (t_prune k) ?ws"
  let ?cap = "memory_max_writes_per_second (config m)"
  from inv obtain old where old: "stamps = old @ ?ws" "\<forall>x \<in> set old. x < T - 1"
    and win: "\<forall>a. int (length (in_second a stamps)) \<le> max 0 ?cap"
    unfolding rate_inv_def by blast
  from prune_writes_split [of ?ws "t_now k" "t_prune k"]
  obtain dropped where dr: "?ws = dropped @ ?ws'" "\<forall>x \<in> set dropped. x < ?n - 1"
    unfolding effective_now_def by blast
  have old_c: "\<forall>x \<in> set old. x < ?c - 1" using old(2) clk by fastforce
  have dr_c: "\<forall>x \<in> set dropped. x < ?c - 1" using dr(2) clk by fastforce
  have split': "stamps = (old @ dropped) @ ?ws'" using old(1) dr(1) by simp
  have old'_c: "\<forall>x \<in> set (old @ dropped). x < ?c - 1" using old_c dr_c by auto
  from execute_write_cases [of k t w m]
  consider (skip) m' where "execute_write k t w m = (m', None)" "config m' = config m"
      "write_timestamps m' = ?ws \<or> write_timestamps m' = ?ws'"
    | (commit) m' where "execute_write k t w m = (m', Some ?c)" "config m' = config m"
      "write_timestamps m' = ?ws' @ [?c]" "int (length ?ws') < ?cap"
    by blast
  then show ?thesis
  proof cases
    case skip
    note r = skip(1) and cfg = skip(2) and ws = skip(3)
    from ws have "\<exists>old'. stamps = old' @ write_timestamps m' \<and> (\<forall>x \<in> set old'. x < ?c - 1)"
    proof
      assume "write_timestamps m' = ?ws"
      then show ?thesis using old(1) old_c by auto
    next
      assume "write_timestamps m' = ?ws'"
      then show ?thesis using split' old'_c by metis
    qed
    then have "rate_inv m' stamps ?c" unfolding rate_inv_def using win cfg by simp
    then show ?thesis using r by blast
  next
    case commit
    note r = commit(1) and cfg = commit(2) and ws = commit(3) and room = commit(4)
    have a: "stamps @ [?c] = (old @ dropped) @ write_timestamps m'"
      using split' ws by simp
    have b: "int (length (in_second a (stamps @ [?c]))) \<le> max 0 ?cap" for a
    proof (cases "a \<le> ?c \<and> ?c \<le> a + 1")
      case False
      then have "in_second a (stamps @ [?c]) = in_second a stamps"
        by (auto simp add: in_second_def)
      then show ?thesis using win by simp
    next
      case True
      have "in_second a (old @ dropped) = []"
        unfolding in_second_def filter_empty_conv using old'_c True by fastforce
      then have "in_second a stamps = in_second a ?ws'"
        using split' by (simp add: in_second_def)
      then have "length (in_second a (stamps @ [?c])) \<le> length ?ws' + 1"
        by (simp add: in_second_def True)
      then show ?thesis using room by linarith
    qed
    have "rate_inv m' (stamps @ [?c]) ?c"
      unfolding rate_inv_def using a old'_c b cfg by metis
    then show ?thesis using r by blast
  qed
qed

lemma rate_inv_run:
  assumes "rate_inv m stamps T" "monotone_calls T calls"
  shows "\<exists>T'. rate_inv (fst (run_writes calls (m, stamps))) (snd (run_writes calls (m, stamps))) T'"
  using assms
proof (induction calls arbitrary: m stamps T)
  case Nil
  then show ?case by auto
next
  case (Cons call calls)
  obtain k t w where call: "call = (k, t, w)" by (cases call) auto
  from Cons.prems(2) have clk: "T \<le> effective_now k" "effective_now k \<le> t_commit k"
    and rest: "monotone_calls (t_commit k) calls"
    by (simp_all add: call)
  from rate_inv_step [OF Cons.prems(1) clk, of t w]
  consider (skip) m' where "execute_write k t w m = (m', None)" "rate_inv m' stamps (t_commit k)"
    | (commit) m' where "execute_write k t w m = (m', Some (t_commit k))"
        "rate_inv m' (stamps @ [t_commit k]) (t_commit k)"
    by blast
  then show ?case
  proof cases
    case skip
    from Cons.IH [OF skip(2) rest] show ?thesis by (simp add: call skip(1))
  next
    case commit
    from Cons.IH [OF commit(2) rest] show ?thesis by (simp add: call commit(1))
  qed
qed

lemma run_writes_config:
  "config (fst (run_writes calls (m, stamps))) = config m"
proof (induction calls arbitrary: m stamps)
  case Nil
  then show ?case by simp
next
  case (Cons call calls)
  obtain k t w where call: "call = (k, t, w)" by (cases call) auto
  from execute_write_cases [of k t w m]
  obtain m' r where "execute_write k t w m = (m', r)" "config m' = config m" by blast
  then show ?case
    by (cases r) (simp_all add: call Cons.IH)
qed

lemma steady_clock_sel:
  "t_allow (steady_clock t) = t" "t_allow_tripped (steady_clock t) = t" "t_now (steady_clock t) = t"
  "t_prune (steady_clock t) = t" "t_commit (steady_clock t) = t" "t_result (steady_clock t) = t"
  "t_result_tripped (steady_clock t) = t"
  by (simp_all add: steady_clock_def)

text \<open>
  Claim C7.  Take a store with an empty timestamp deque and any series of
  calls of \<^verbatim>\<open>_execute_write\<close> under a clock that does not run backwards.  Then
  every closed one-second window holds at most \<^verbatim>\<open>memory_max_writes_per_second\<close> of
  the committed timestamps.  Moreover a call that finds the pruned deque at the
  maximum commits nothing: it returns without a timestamp and leaves the
  database as it was (the model has no other outcome, so nothing is raised).
\<close>

theorem write_rate_never_exceeded:
  assumes "write_timestamps m = []" and "monotone_calls T calls"
  shows "(\<forall>a. int (length (in_second a (snd (run_writes calls (m, [])))))
               \<le> max 0 (memory_max_writes_per_second (config m)))
       \<and> (\<forall>k t w m'. memory_max_writes_per_second (config m')
                         \<le> int (length (prune_writes (t_now k) (t_prune k) (write_timestamps m')))
             \<longrightarrow> snd (execute_write k t w m') = None
               \<and> db (fst (execute_write k t w m')) = db m')"
proof -
  have "rate_inv m [] T"
    unfolding rate_inv_def using assms(1) by (simp add: in_second_def)
  from rate_inv_run [OF this assms(2)]
  have "\<forall>a. int (length (in_second a (snd (run_writes calls (m, [])))))
               \<le> max 0 (memory_max_writes_per_second (config m))"
    unfolding rate_inv_def by (simp add: run_writes_config)
  moreover have "snd (execute_write k t w m') = None \<and> db (fst (execute_write k t w m')) = db m'"
    if "memory_max_writes_per_second (config m')
          \<le> int (length (prune_writes (t_now k) (t_prune k) (write_timestamps m')))"
    for k t w m'
    using execute_write_cases [of k t w m'] that by auto
  ultimately show ?thesis by blast
qed


theorem write_rate_never_exceeded_witness:
  "int (length (in_second 100
          (snd (run_writes [(steady_clock 100, ''server_profiles'', Inr),
                            (steady_clock (201 / 2), ''server_profiles'', Inr)]
                  (CausalMemory (default_config\<lparr>memory_max_writes_per_second := 1\<rparr>)
                     True FileNotFound empty_database None [], [])))))
     \<le> 1
 \<and> snd (run_writes [(steady_clock 100, ''server_profiles'', Inr),
                     (steady_clock (201 / 2), ''server_profiles'', Inr)]
           (CausalMemory (default_config\<lparr>memory_max_writes_per_second := 1\<rparr>)
              True FileNotFound empty_database None [], []))
     = [100]"
proof -
  let ?m = "CausalMemory (default_config\<lparr>memory_max_writes_per_second := 1\<rparr>)
              True FileNotFound empty_database None []"
  let ?calls = "[(steady_clock 100, ''server_profiles'', Inr),
                 (steady_clock (201 / 2), ''server_profiles'', Inr)] :: write_call list"
  have f: "write_timestamps ?m = []" "memory_max_writes_per_second (config ?m) = 1"
    by (simp_all add: CausalMemory_def check_size_limit_def)
  have mono: "monotone_calls 0 ?calls"
    by (simp add: effective_now_def steady_clock_sel)
  have run: "snd (run_writes ?calls (?m, [])) = [100]"
    by (simp add: execute_write_def CausalMemory_def check_size_limit_def Let_def
        steady_clock_sel allow_def prune_def tripped_def CircuitBreaker_def prune_writes_def
        table_over_limit_def get_memory_table_limits_def default_config_def table_count_def
        empty_database_def record_success_def)
  from write_rate_never_exceeded [OF f(1) mono] f(2)
  have "int (length (in_second 100 (snd (run_writes ?calls (?m, []))))) \<le> 1"
    by simp
  then show ?thesis using run by simp
qed

section \<open>Facts about the governor\<close>

lemma select_best_from:
  "select_best idn mb outs (b0, s0) = Inr (Some best, s) \<Longrightarrow>
     Some best = b0 \<or> (\<exists>out a. out \<in> set outs \<and> recommended_action out = Some a \<and> best = decision_of out a)"
proof (induction outs arbitrary: b0 s0)
  case Nil
  then show ?case by simp
next
  case (Cons out outs)
  show ?case
  proof (cases "recommended_action out")
    case None
    with Cons.prems have "select_best idn mb outs (b0, s0) = Inr (Some best, s)" by simp
    from Cons.IH [OF this] show ?thesis by auto
  next
    case (Some a)
    show ?thesis
    proof (cases "score idn out mb")
      case (Inl e)
      with Some Cons.prems show ?thesis by simp
    next
      case (Inr sc)
      show ?thesis
      proof (cases "sc > s0")
        case True
        with Some Inr Cons.prems
        have "select_best idn mb outs (Some (decision_of out a), sc) = Inr (Some best, s)" by simp
        from Cons.IH [OF this] Some show ?thesis by auto
      next
        case False
        with Some Inr Cons.prems
        have "select_best idn mb outs (b0, s0) = Inr (Some best, s)" by simp
        from Cons.IH [OF this] show ?thesis by auto
      qed
    qed
  qed
qed

text \<open>
  Claim C5.  Whatever \<open>deliberate\<close> returns is one of its three fixed
  \<^verbatim>\<open>observe\<close> decisions or the decision of a strategy output whose risk does
  not exceed \<open>0.7 - 0.2 * memory_bias\<close> while its confidence is below \<open>0.7\<close>.
  When the candidate selected by the loop exceeds that bound, the result is the
  \<^verbatim>\<open>observe\<close> decision with the rationale ``Risk exceeded confidence''.  As long
  as the bias is at most 3 the fixed \<^verbatim>\<open>observe\<close> decisions are inside the bound too.
\<close>

theorem governor_never_returns_risky:
  assumes "deliberate idn m clock server outs directed = Inr d"
  shows "(d = ambient_decision clock \<or> d = no_recommendation clock \<or> d = risk_override clock
          \<or> (\<exists>out a. out \<in> set outs \<and> recommended_action out = Some a \<and> d = decision_of out a
                \<and> \<not> exceeds (governor_memory_bias m server) (risk out) (confidence out)))
       \<and> (\<forall>best s. directed
             \<and> select_best idn (governor_memory_bias m server) outs (None, - 1) = Inr (Some best, s)
             \<and> exceeds (governor_memory_bias m server) (dec_risk best) (dec_confidence best)
             \<longrightarrow> d = risk_override clock)
       \<and> (governor_memory_bias m server \<le> 3 \<longrightarrow>
             \<not> exceeds (governor_memory_bias m server) (dec_risk d) (dec_confidence d))"
proof (cases directed)
  case False
  with assms have d: "d = ambient_decision clock" by (simp add: deliberate_def)
  have "\<not> exceeds (governor_memory_bias m server) (dec_risk d) (dec_confidence d)"
    if "governor_memory_bias m server \<le> 3"
    using that by (simp add: d ambient_decision_def exceeds_def)
  with d False show ?thesis by simp
next
  case True
  from assms True obtain recent where rec: "fetch_recent m server 6 = Inr recent"
    by (cases "fetch_recent m server 6") (simp_all add: deliberate_def)
  let ?mb = "memory_bias_of recent"
  have mb: "governor_memory_bias m server = ?mb" by (simp add: governor_memory_bias_def rec)
  from assms True rec obtain b s where sel: "select_best idn ?mb outs (None, - 1) = Inr (b, s)"
    by (cases "select_best idn ?mb outs (None, - 1)") (auto simp add: deliberate_def Let_def)
  show ?thesis
  proof (cases b)
    case None
    with assms True rec sel have d: "d = no_recommendation clock"
      by (simp add: deliberate_def Let_def)
    have "\<not> exceeds ?mb (dec_risk d) (dec_confidence d)" if "?mb \<le> 3"
      using that by (simp add: d no_recommendation_def exceeds_def)
    with d None sel mb show ?thesis by simp
  next
    case (Some best)
    from select_best_from [OF sel [unfolded Some]]
    obtain out a where out: "out \<in> set outs" "recommended_action out = Some a" "best = decision_of out a"
      by auto
    show ?thesis
    proof (cases "exceeds ?mb (dec_risk best) (dec_confidence best)")
      case ex: True
      with assms True rec sel Some have d: "d = risk_override clock"
        by (simp add: deliberate_def Let_def exceeds_def mult.commute)
      have "\<not> exceeds ?mb (dec_risk d) (dec_confidence d)" if "?mb \<le> 3"
        using that by (simp add: d risk_override_def exceeds_def)
      with d mb show ?thesis by simp
    next
      case nex: False
      with assms True rec sel Some have d: "d = best"
        by (auto simp add: deliberate_def Let_def exceeds_def mult.commute)
      have "\<not> exceeds ?mb (risk out) (confidence out)"
        using nex out(3) by (simp add: decision_of_def)
      with d out nex mb sel Some show ?thesis by auto
    qed
  qed
qed


theorem governor_never_returns_risky_witness:
  "deliberate neutral_identity
     (CausalMemory default_config True FileNotFound empty_database None [])
     10 ''guild''
     [\<lparr>reality = ''tools'',
       recommended_action = Some \<lparr>intent_type = ''tool_call'', target_id = None, payload = [],
                                   metadata = [], created_at = 9\<rparr>,
       confidence = 1 / 2, risk = 9 / 10, justification = ''risky''\<rparr>]
     True
   = Inr (risk_override 10)"
proof -
  let ?m = "CausalMemory default_config True FileNotFound empty_database None []"
  let ?a = "\<lparr>intent_type = ''tool_call'', target_id = None, payload = [],
             metadata = [], created_at = 9\<rparr>"
  let ?out = "\<lparr>reality = ''tools'', recommended_action = Some ?a,
               confidence = 1 / 2, risk = 9 / 10, justification = ''risky''\<rparr>"
  have fr: "fetch_recent ?m ''guild'' 6 = Inr []"
    by (simp add: fetch_recent_def CausalMemory_def check_size_limit_def sql_limit_def
        order_by_ts_desc_def empty_database_def)
  have mb: "governor_memory_bias ?m ''guild'' = 0"
    unfolding governor_memory_bias_def fr by (simp add: memory_bias_of_def)
  have sc: "score neutral_identity ?out 0 = Inr (21 / 400 :: real)"
    by (simp add: score_def trait_def neutral_identity_def Let_def)
  have sel: "select_best neutral_identity 0 [?out] (None, - 1) = Inr (Some (decision_of ?out ?a), 21 / 400)"
    by (simp add: sc)
  have ret: "deliberate neutral_identity ?m 10 ''guild'' [?out] True = Inr (risk_override 10)"
    unfolding deliberate_def fr by (simp add: memory_bias_of_def sc decision_of_def Let_def)
  have ex: "exceeds 0 (dec_risk (decision_of ?out ?a)) (dec_confidence (decision_of ?out ?a))"
    by (simp add: exceeds_def decision_of_def)
  from governor_never_returns_risky [OF ret] mb sel ex
  show ?thesis using ret by simp
qed

lemma select_best_max:
  assumes "\<And>out. score idn out mb = Inr (f out)"
  shows "\<exists>b s. select_best idn mb outs (b0, s0) = Inr (b, s)
           \<and> s0 \<le> s \<and> (\<forall>out \<in> set (candidates outs). f out \<le> s)
           \<and> ((b, s) = (b0, s0)
               \<or> (\<exists>out a. out \<in> set (candidates outs) \<and> recommended_action out = Some a
                      \<and> b = Some (decision_of out a) \<and> s = f out \<and> s0 < s))"
proof (induction outs arbitrary: b0 s0)
  case Nil
  then show ?case by (simp add: candidates_def)
next
  case (Cons out outs)
  show ?case
  proof (cases "recommended_action out")
    case None
    then show ?thesis using Cons.IH [of b0 s0] by (simp add: candidates_def)
  next
    case (Some a)
    show ?thesis
    proof (cases "f out > s0")
      case True
      from Cons.IH [of "Some (decision_of out a)" "f out"]
      obtain b s where r: "select_best idn mb outs (Some (decision_of out a), f out) = Inr (b, s)"
        "f out \<le> s" "\<forall>x \<in> set (candidates outs). f x \<le> s"
        "(b, s) = (Some (decision_of out a), f out)
           \<or> (\<exists>x a'. x \<in> set (candidates outs) \<and> recommended_action x = Some a'
                  \<and> b = Some (decision_of x a') \<and> s = f x \<and> f out < s)"
        by blast
      have sel: "select_best idn mb (out # outs) (b0, s0) = Inr (b, s)"
        using Some True r(1) assms by simp
      have in_c: "out \<in> set (candidates (out # outs))" using Some by (simp add: candidates_def)
      have sub: "set (candidates outs) \<subseteq> set (candidates (out # outs))"
        by (auto simp add: candidates_def)
      from r(4) have "\<exists>x a'. x \<in> set (candidates (out # outs)) \<and> recommended_action x = Some a'
                  \<and> b = Some (decision_of x a') \<and> s = f x \<and> s0 < s"
      proof
        assume "(b, s) = (Some (decision_of out a), f out)"
        then show ?thesis using in_c Some True by auto
      next
        assume "\<exists>x a'. x \<in> set (candidates outs) \<and> recommended_action x = Some a'
                  \<and> b = Some (decision_of x a') \<and> s = f x \<and> f out < s"
        then show ?thesis using sub True by fastforce
      qed
      moreover have "\<forall>x \<in> set (candidates (out # outs)). f x \<le> s"
        using r(2,3) by (auto simp add: candidates_def)
      moreover have "s0 \<le> s" using True r(2) by simp
      ultimately show ?thesis using sel by blast
    next
      case False
      from Cons.IH [of b0 s0]
      obtain b s where r: "select_best idn mb outs (b0, s0) = Inr (b, s)"
        "s0 \<le> s" "\<forall>x \<in> set (candidates outs). f x \<le> s"
        "(b, s) = (b0, s0)
           \<or> (\<exists>x a'. x \<in> set (candidates outs) \<and> recommended_action x = Some a'
                  \<and> b = Some (decision_of x a') \<and> s = f x \<and> s0 < s)"
        by blast
      have sel: "select_best idn mb (out # outs) (b0, s0) = Inr (b, s)"
        using Some False r(1) assms by simp
      have "\<forall>x \<in> set (candidates (out # outs)). f x \<le> s"
        using r(2,3) False by (auto simp add: candidates_def)
      moreover have "(b, s) = (b0, s0)
           \<or> (\<exists>x a'. x \<in> set (candidates (out # outs)) \<and> recommended_action x = Some a'
                  \<and> b = Some (decision_of x a') \<and> s = f x \<and> s0 < s)"
        using r(4) by (auto simp add: candidates_def)
      ultimately show ?thesis using sel r(2) by blast
    qed
  qed
qed

lemma product_bounded_below:
  fixes b m :: real
  assumes "0 \<le> b" "b \<le> 1" "- (1 / 5) \<le> m"
  shows "- 1 < b * m"
proof (cases "0 \<le> m")
  case True
  then have "0 \<le> b * m" using assms(1) by simp
  then show ?thesis by linarith
next
  case False
  then have "m \<le> 0" by simp
  then have "1 * m \<le> b * m" using assms(2) by (intro mult_right_mono_neg) auto
  then show ?thesis using assms(3) by linarith
qed

lemma score_bounded_below:
  fixes c r a ca cu mb :: real
  assumes "0 \<le> c" "c \<le> 1" "0 \<le> r" "r \<le> 1" "0 \<le> a" "a \<le> 1" "0 \<le> ca" "ca \<le> 1"
    "0 \<le> cu" "cu \<le> 1" "- 1 \<le> mb"
  shows "- 1 < c * (1 - r) * (1 + 0.2 * (a - ca) + 0.1 * cu + mb)"
proof (rule product_bounded_below)
  show "0 \<le> c * (1 - r)" using assms by simp
  have "c * (1 - r) \<le> 1 * 1" using assms by (intro mult_mono) auto
  then show "c * (1 - r) \<le> 1" by simp
  have "- 1 \<le> a - ca" "0 \<le> cu" using assms by linarith+
  then have "- (1 / 5) \<le> 0.2 * (a - ca)" "0 \<le> 0.1 * cu" by simp_all
  then show "- (1 / 5) \<le> 1 + 0.2 * (a - ca) + 0.1 * cu + mb" using assms(11) by linarith
qed

lemma mean_bounded_below:
  fixes xs :: "real list"
  assumes "\<forall>x \<in> set xs. l \<le> x" "xs \<noteq> []"
  shows "l \<le> sum_list xs / real (length xs)"
proof -
  have "real (length xs) * l \<le> sum_list xs"
    using assms(1) by (induction xs) (auto simp add: algebra_simps)
  moreover have "0 < real (length xs)" using assms(2) by simp
  ultimately show ?thesis by (simp add: pos_le_divide_eq mult.commute)
qed


text \<open>
  With confidence, risk and the traits in \<open>[0, 1]\<close> and a bias of at least \<open>- 1\<close>
  every score is above \<open>- 1\<close>, the initial \<^verbatim>\<open>best_score\<close>.
\<close>

lemma in_range_score_above_initial_best:
  assumes "0 \<le> confidence out" "confidence out \<le> 1" "0 \<le> risk out" "risk out \<le> 1"
    and "0 \<le> a" "a \<le> 1" "0 \<le> ca" "ca \<le> 1" "0 \<le> cu" "cu \<le> 1" "- 1 \<le> mb"
  shows "- 1 < spec_score a ca cu mb out"
  unfolding spec_score_def using assms by (intro score_bounded_below) auto

lemma score_spec:
  assumes "map_of (trait_values idn) ''assertiveness'' = Some a"
    and "map_of (trait_values idn) ''caution'' = Some ca"
    and "map_of (trait_values idn) ''curiosity'' = Some cu"
  shows "score idn out mb = Inr (spec_score a ca cu mb out)"
  using assms by (simp add: score_def trait_def spec_score_def Let_def)

lemma fetch_recent_readable:
  assumes "\<not> disabled_due_to_size m" "db_fault m = None" "0 \<le> n"
  shows "fetch_recent m server n = Inr (take (nat n) (order_by_ts_desc (server_rows m server)))"
  using assms by (simp add: fetch_recent_def sql_limit_def server_rows_def)

lemma newest_first:
  fixes rows :: "memory_row list"
  defines "s \<equiv> order_by_ts_desc rows"
  shows "mset (take n s) \<subseteq># mset rows"
    and "length (take n s) = min n (length rows)"
    and "\<forall>r \<in> set (take n s). \<forall>r' \<in># mset rows - mset (take n s). ts r' \<le> ts r"
proof -
  have ms: "mset s = mset rows" by (simp add: s_def order_by_ts_desc_def)
  have split: "mset (take n s) + mset (drop n s) = mset rows"
    using ms by (simp flip: mset_append)
  then show "mset (take n s) \<subseteq># mset rows" by (metis mset_subset_eq_add_left)
  show "length (take n s) = min n (length rows)"
    by (simp add: s_def order_by_ts_desc_def min.commute)
  from split have rest: "mset rows - mset (take n s) = mset (drop n s)"
    by (metis add_diff_cancel_left')
  have "sorted (map (\<lambda>r. - ts r) s)" by (simp add: s_def order_by_ts_desc_def)
  then have "sorted (map (\<lambda>r. - ts r) (take n s) @ map (\<lambda>r. - ts r) (drop n s))"
    by (simp flip: map_append)
  then have "\<forall>a \<in> set (map (\<lambda>r. - ts r) (take n s)). \<forall>b \<in> set (map (\<lambda>r. - ts r) (drop n s)). a \<le> b"
    unfolding sorted_append by blast
  then have "\<forall>r \<in> set (take n s). \<forall>r' \<in> set (drop n s). ts r' \<le> ts r"
    by simp
  then show "\<forall>r \<in> set (take n s). \<forall>r' \<in># mset rows - mset (take n s). ts r' \<le> ts r"
    unfolding rest by simp
qed

lemma guild_row_sel:
  "row_id (guild_row i s t d) = i" "server_id (guild_row i s t d) = s"
  "ts (guild_row i s t d) = t" "confidence_delta (guild_row i s t d) = d"
  by (simp_all add: guild_row_def sample_row_def)

lemma neutral_traits:
  "map_of (trait_values neutral_identity) ''assertiveness'' = Some (1 / 2)"
  "map_of (trait_values neutral_identity) ''caution'' = Some (1 / 2)"
  "map_of (trait_values neutral_identity) ''curiosity'' = Some (1 / 2)"
  by (simp_all add: neutral_identity_def)

lemma guild_store_fields:
  "\<not> disabled_due_to_size guild_store" "db_fault guild_store = None"
  "memory (db guild_store) = eight_rows"
  by (simp_all add: guild_store_def CausalMemory_def check_size_limit_def)

lemma guild_store_recent:
  "fetch_recent guild_store ''guild'' 6
     = Inr [guild_row 8 ''guild'' 70 (1 / 2), guild_row 6 ''guild'' 60 0,
            guild_row 7 ''guild'' 50 0, guild_row 5 ''guild'' 40 0,
            guild_row 3 ''guild'' 30 (1 / 2), guild_row 1 ''guild'' 20 (1 / 2)]"
  by (simp add: fetch_recent_def guild_store_fields sql_limit_def order_by_ts_desc_def
      eight_rows_def guild_row_sel)

lemma guild_store_bias: "governor_memory_bias guild_store ''guild'' = 1 / 4"
  by (simp add: governor_memory_bias_def guild_store_recent memory_bias_of_def guild_row_sel)

text \<open>
  Claim C6, as amended.  An undirected call returns at once the \<^verbatim>\<open>observe\<close>
  decision with confidence 0.35 and risk 0.05.  For a directed call on a
  readable store, with the three traits present: \<^verbatim>\<open>fetch_recent\<close> returns
  \<open>min 6 n\<close> of the \<open>n\<close> records of the server, none of the records left out
  is newer than a returned one, and the bias is the mean \<^verbatim>\<open>confidence_delta\<close> of
  the returned records (0 when there is none); every output is scored by the
  formula of the specification; when no candidate scores above \<open>- 1\<close>, the
  initial \<^verbatim>\<open>best_score\<close> of the loop, in particular when there is no candidate,
  the result is the ``no strong recommendation'' \<^verbatim>\<open>observe\<close> decision;
  otherwise a candidate of maximal score is selected, and returned unless the
  safety override replaces it.
\<close>

theorem governor_scoring_and_selection:
  assumes traits: "map_of (trait_values idn) ''assertiveness'' = Some a"
      "map_of (trait_values idn) ''caution'' = Some ca"
      "map_of (trait_values idn) ''curiosity'' = Some cu"
    and store: "\<not> disabled_due_to_size m" "db_fault m = None"
    and mb: "mb = governor_memory_bias m server"
  shows "deliberate idn m clock server outs False = Inr (ambient_decision clock)
       \<and> dec_confidence (ambient_decision clock) = 0.35
       \<and> dec_risk (ambient_decision clock) = 0.05
       \<and> intent_type (dec_action (ambient_decision clock)) = ''observe''
       \<and> (\<exists>recent. fetch_recent m server 6 = Inr recent
             \<and> mset recent \<subseteq># mset (server_rows m server)
             \<and> length recent = min 6 (length (server_rows m server))
             \<and> (\<forall>r \<in> set recent. \<forall>r' \<in># mset (server_rows m server) - mset recent. ts r' \<le> ts r)
             \<and> mb = (if recent = [] then 0
                      else sum_list (map confidence_delta recent) / real (length recent)))
       \<and> (\<forall>out. score idn out mb = Inr (spec_score a ca cu mb out))
       \<and> ((\<forall>out \<in> set (candidates outs). spec_score a ca cu mb out \<le> - 1) \<longrightarrow>
             deliberate idn m clock server outs True = Inr (no_recommendation clock))
       \<and> ((\<exists>out \<in> set (candidates outs). - 1 < spec_score a ca cu mb out) \<longrightarrow>
             (\<exists>best act. best \<in> set (candidates outs) \<and> recommended_action best = Some act
                \<and> (\<forall>out \<in> set (candidates outs).
                      spec_score a ca cu mb out \<le> spec_score a ca cu mb best)
                \<and> deliberate idn m clock server outs True
                     = Inr (if exceeds mb (risk best) (confidence best)
                            then risk_override clock else decision_of best act)))"
proof -
  let ?f = "spec_score a ca cu mb"
  let ?recent = "take 6 (order_by_ts_desc (server_rows m server))"
  have amb: "deliberate idn m clock server outs False = Inr (ambient_decision clock)"
    by (simp add: deliberate_def)
  have amb_vals: "dec_confidence (ambient_decision clock) = 0.35
       \<and> dec_risk (ambient_decision clock) = 0.05
       \<and> intent_type (dec_action (ambient_decision clock)) = ''observe''"
    by (simp add: ambient_decision_def fallback_def)
  have fr: "fetch_recent m server 6 = Inr ?recent"
    using fetch_recent_readable [OF store, of 6 server] by simp
  have mbo: "memory_bias_of ?recent = mb"
    unfolding mb by (simp add: governor_memory_bias_def fr)
  have mean: "mb = (if ?recent = [] then 0
                    else sum_list (map confidence_delta ?recent) / real (length ?recent))"
    unfolding mbo [symmetric] memory_bias_of_def by simp
  have last6: "\<exists>recent. fetch_recent m server 6 = Inr recent
             \<and> mset recent \<subseteq># mset (server_rows m server)
             \<and> length recent = min 6 (length (server_rows m server))
             \<and> (\<forall>r \<in> set recent. \<forall>r' \<in># mset (server_rows m server) - mset recent. ts r' \<le> ts r)
             \<and> mb = (if recent = [] then 0
                      else sum_list (map confidence_delta recent) / real (length recent))"
    using fr newest_first [of 6 "server_rows m server"] mean by blast
  have sc: "score idn out mb = Inr (?f out)" for out
    by (rule score_spec [OF traits])
  from select_best_max [of idn mb ?f outs None "- 1", OF sc]
  obtain b s where sel: "select_best idn mb outs (None, - 1) = Inr (b, s)"
    and ub: "\<forall>out \<in> set (candidates outs). ?f out \<le> s"
    and src: "(b, s) = (None, - 1)
           \<or> (\<exists>out act. out \<in> set (candidates outs) \<and> recommended_action out = Some act
                  \<and> b = Some (decision_of out act) \<and> s = ?f out \<and> - 1 < s)"
    by blast
  have none: "deliberate idn m clock server outs True = Inr (no_recommendation clock)"
    if low: "\<forall>out \<in> set (candidates outs). ?f out \<le> - 1"
  proof -
    from src low have "(b, s) = (None, - 1)" by fastforce
    then show ?thesis using sel by (simp add: deliberate_def fr mbo Let_def)
  qed
  have some: "\<exists>best act. best \<in> set (candidates outs) \<and> recommended_action best = Some act
                \<and> (\<forall>out \<in> set (candidates outs). ?f out \<le> ?f best)
                \<and> deliberate idn m clock server outs True
                     = Inr (if exceeds mb (risk best) (confidence best)
                            then risk_override clock else decision_of best act)"
    if high: "\<exists>out \<in> set (candidates outs). - 1 < ?f out"
  proof -
    from high obtain c where c: "c \<in> set (candidates outs)" "- 1 < ?f c" by blast
    from c ub have "- 1 < s" by fastforce
    with src obtain best act where best: "best \<in> set (candidates outs)"
      "recommended_action best = Some act" "b = Some (decision_of best act)" "s = ?f best"
      by auto
    have "deliberate idn m clock server outs True
            = Inr (if exceeds mb (risk best) (confidence best)
                   then risk_override clock else decision_of best act)"
      using sel best(3)
      by (simp add: deliberate_def fr mbo Let_def exceeds_def decision_of_def mult.commute)
    with best ub show ?thesis by blast
  qed
  show ?thesis
    using amb amb_vals last6 sc none some by blast
qed


theorem governor_scoring_and_selection_witness:
  "governor_memory_bias guild_store ''guild'' = 1 / 4
 \<and> spec_score (1 / 2) (1 / 2) (1 / 2) (1 / 4) tool_output = 104 / 125
 \<and> spec_score (1 / 2) (1 / 2) (1 / 2) (1 / 4) reply_output = 13 / 25
 \<and> deliberate neutral_identity guild_store 10 ''guild''
      [quiet_output, tool_output, reply_output] True
    = Inr (decision_of tool_output tool_intent)"
proof -
  let ?f = "spec_score (1 / 2) (1 / 2) (1 / 2) (1 / 4)"
  let ?outs = "[quiet_output, tool_output, reply_output]"
  have sc: "?f tool_output = 104 / 125" "?f reply_output = 13 / 25"
    by (simp_all add: spec_score_def tool_output_def reply_output_def)
  have cands: "candidates ?outs = [tool_output, reply_output]"
    by (simp add: candidates_def quiet_output_def tool_output_def reply_output_def)
  have high: "\<exists>out \<in> set (candidates ?outs). - 1 < ?f out"
    unfolding cands using sc by simp
  from governor_scoring_and_selection
         [OF neutral_traits guild_store_fields(1,2) guild_store_bias [symmetric], of 10 ?outs]
  have "(\<exists>out \<in> set (candidates ?outs). - 1 < ?f out) \<longrightarrow>
          (\<exists>best act. best \<in> set (candidates ?outs) \<and> recommended_action best = Some act
             \<and> (\<forall>out \<in> set (candidates ?outs). ?f out \<le> ?f best)
             \<and> deliberate neutral_identity guild_store 10 ''guild'' ?outs True
                  = Inr (if exceeds (1 / 4) (risk best) (confidence best)
                         then risk_override 10 else decision_of best act))"
    by blast
  with high obtain best act where best: "best \<in> set (candidates ?outs)"
    "recommended_action best = Some act" "\<forall>out \<in> set (candidates ?outs). ?f out \<le> ?f best"
    "deliberate neutral_identity guild_store 10 ''guild'' ?outs True
       = Inr (if exceeds (1 / 4) (risk best) (confidence best)
              then risk_override 10 else decision_of best act)"
    by blast
  have "best \<noteq> reply_output"
  proof
    assume "best = reply_output"
    with best(3) have "?f tool_output \<le> ?f reply_output" unfolding cands by simp
    then show False unfolding sc by simp
  qed
  with best(1) have b: "best = tool_output" unfolding cands by simp
  with best(2) have a: "act = tool_intent" by (simp add: tool_output_def)
  have "\<not> exceeds (1 / 4) (risk tool_output) (confidence tool_output)"
    by (simp add: exceeds_def tool_output_def)
  with best(4) b a sc guild_store_bias show ?thesis by simp
qed

text \<open>
  Claim C6 as stated fails where no candidate scores above the initial
  \<^verbatim>\<open>best_score\<close> of \<open>- 1\<close>.  With one stored record of confidence delta \<open>- 3\<close> the
  bias is \<open>- 3\<close>; the only candidate (confidence 1, risk 0) scores
  \<open>1 * (1 - 0) * (1 + 0 + 0.05 - 3) = - 1.95\<close>, the maximum over the candidates,
  and is not selected: the call returns the \<^verbatim>\<open>observe\<close> decision of the case
  without a candidate.
\<close>

theorem governor_ignores_low_scores_counterexample:
  "candidates [sure_output] = [sure_output]
 \<and> governor_memory_bias sour_store ''guild'' = - 3
 \<and> score neutral_identity sure_output (- 3) = Inr (- (39 / 20))
 \<and> deliberate neutral_identity sour_store 10 ''guild'' [sure_output] True
      = Inr (no_recommendation 10)
 \<and> no_recommendation 10 \<noteq> decision_of sure_output reply_intent"
proof -
  have fr: "fetch_recent sour_store ''guild'' 6 = Inr [guild_row 1 ''guild'' 10 (- 3)]"
    by (simp add: fetch_recent_def sour_store_def CausalMemory_def check_size_limit_def
        sql_limit_def order_by_ts_desc_def guild_row_sel)
  have mb: "memory_bias_of [guild_row 1 ''guild'' 10 (- 3)] = - 3"
    by (simp add: memory_bias_of_def guild_row_sel)
  have sc: "score neutral_identity sure_output (- 3) = Inr (- (39 / 20))"
    by (simp add: score_def trait_def neutral_identity_def sure_output_def Let_def)
  have c: "candidates [sure_output] = [sure_output]"
    by (simp add: candidates_def sure_output_def)
  have ra: "recommended_action sure_output = Some reply_intent"
    by (simp add: sure_output_def)
  have d: "deliberate neutral_identity sour_store 10 ''guild'' [sure_output] True
             = Inr (no_recommendation 10)"
    by (simp add: deliberate_def fr mb ra sc Let_def)
  have ne: "no_recommendation 10 \<noteq> decision_of sure_output reply_intent"
    by (simp add: no_recommendation_def decision_of_def sure_output_def)
  show ?thesis
    using c sc d ne by (simp add: governor_memory_bias_def fr mb)
qed

section \<open>Facts about safe mode\<close>

lemma record_overrun_safe: "safe_mode (record_overrun rsn s)"
  by (simp add: record_overrun_def)

lemma record_overrun_times_safe: "safe_mode s \<Longrightarrow> safe_mode ((record_overrun rsn ^^ n) s)"
  by (induction n) (simp_all add: record_overrun_safe)













section \<open>Facts about the session store\<close>

lemma dict_get_iff:
  "distinct (map fst d) \<Longrightarrow> dict_get d k = Some v \<longleftrightarrow> (k, v) \<in> set d"
  by (simp add: dict_get_def)

lemma dict_pop_set: "set (dict_pop d k) = {(k', v). (k', v) \<in> set d \<and> k' \<noteq> k}"
  by (auto simp add: dict_pop_def)

lemma dict_pop_distinct: "distinct (map fst d) \<Longrightarrow> distinct (map fst (dict_pop d k))"
  by (simp add: dict_pop_def distinct_map_filter)

lemma dict_set_keys:
  "map fst (dict_set d k v) = (if k \<in> set (map fst d) then map fst d else map fst d @ [k])"
  by (auto simp add: dict_set_def split: prod.splits)

lemma dict_set_distinct: "distinct (map fst d) \<Longrightarrow> distinct (map fst (dict_set d k v))"
  by (simp add: dict_set_keys)

lemma dict_set_set:
  "set (dict_set d k v) = {(k', v'). (k', v') \<in> set d \<and> k' \<noteq> k} \<union> {(k, v)}"
  by (force simp add: dict_set_def split: prod.splits if_splits)

lemma expire_stale_inv:
  assumes "store_inv st"
  shows "store_inv (snd (expire_stale clock st))"
    and "next_addr (snd (expire_stale clock st)) = next_addr st"
    and "heap (snd (expire_stale clock st)) = heap st"
    and "ttl_seconds (snd (expire_stale clock st)) = ttl_seconds st"
    and "\<forall>e \<in> set (fst (expire_stale clock st)). snd e = ''timeout''"
  using assms
  by (auto simp add: store_inv_def expire_stale_def distinct_map_filter)

lemma same_channel_same_key:
  assumes inv: "store_inv st"
    and e: "((u, g, c), a) \<in> set (sessions st)" and act: "((g, c), b) \<in> set (active_by_channel st)"
  shows "a = b \<and> u = user_id (heap st b)"
proof -
  from inv e have "((g, c), a) \<in> set (active_by_channel st)" "user_id (heap st a) = u"
    unfolding store_inv_def by blast+
  moreover from inv have "distinct (map fst (active_by_channel st))"
    unfolding store_inv_def by blast
  ultimately show ?thesis using act by (metis eq_key_imp_eq_value)
qed

lemma drop_channel_inv:
  assumes inv: "store_inv st" and act: "dict_get (active_by_channel st) (g, c) = Some a"
  shows "store_inv (drop_channel a g c st)"
    and "\<forall>u b. ((u, g, c), b) \<notin> set (sessions (drop_channel a g c st))"
    and "\<forall>b. ((g, c), b) \<notin> set (active_by_channel (drop_channel a g c st))"
proof -
  from inv have d: "distinct (map fst (sessions st))" "distinct (map fst (active_by_channel st))"
    unfolding store_inv_def by blast+
  from act d have am: "((g, c), a) \<in> set (active_by_channel st)" by (simp add: dict_get_iff)
  have gone: "((u, g, c), b) \<notin> set (sessions (drop_channel a g c st))" for u b
  proof
    assume "((u, g, c), b) \<in> set (sessions (drop_channel a g c st))"
    then have m: "((u, g, c), b) \<in> set (sessions st)" and ne: "(u, g, c) \<noteq> session_key (user_id (heap st a)) g c"
      by (auto simp add: drop_channel_def dict_pop_set)
    from same_channel_same_key [OF inv m am] ne show False by (simp add: session_key_def)
  qed
  then show "\<forall>u b. ((u, g, c), b) \<notin> set (sessions (drop_channel a g c st))" by blast
  show "\<forall>b. ((g, c), b) \<notin> set (active_by_channel (drop_channel a g c st))"
    by (auto simp add: drop_channel_def dict_pop_set)
  show "store_inv (drop_channel a g c st)"
    unfolding store_inv_def
  proof (intro conjI allI impI)
    show "distinct (map fst (sessions (drop_channel a g c st)))"
      using d by (simp add: drop_channel_def dict_pop_distinct)
    show "distinct (map fst (active_by_channel (drop_channel a g c st)))"
      using d by (simp add: drop_channel_def dict_pop_distinct)
  next
    fix u g' c' b
    assume m: "((u, g', c'), b) \<in> set (sessions (drop_channel a g c st))"
    then have m0: "((u, g', c'), b) \<in> set (sessions st)"
      by (auto simp add: drop_channel_def dict_pop_set)
    from gone m have ne: "(g', c') \<noteq> (g, c)" by auto
    from inv m0 have p: "b < next_addr st" "user_id (heap st b) = u" "guild_id (heap st b) = g'"
      "channel_id (heap st b) = c'" "((g', c'), b) \<in> set (active_by_channel st)"
      unfolding store_inv_def by blast+
    show "b < next_addr (drop_channel a g c st)" "user_id (heap (drop_channel a g c st) b) = u"
      "guild_id (heap (drop_channel a g c st) b) = g'" "channel_id (heap (drop_channel a g c st) b) = c'"
      using p by (simp_all add: drop_channel_def)
    show "((g', c'), b) \<in> set (active_by_channel (drop_channel a g c st))"
      using p(5) ne by (auto simp add: drop_channel_def dict_pop_set)
  next
    fix g' c' b
    assume "((g', c'), b) \<in> set (active_by_channel (drop_channel a g c st))"
    then have "((g', c'), b) \<in> set (active_by_channel st)"
      by (auto simp add: drop_channel_def dict_pop_set)
    with inv have "b < next_addr st" "guild_id (heap st b) = g'" "channel_id (heap st b) = c'"
      unfolding store_inv_def by blast+
    then show "b < next_addr (drop_channel a g c st)" "guild_id (heap (drop_channel a g c st) b) = g'"
      "channel_id (heap (drop_channel a g c st) b) = c'"
      by (simp_all add: drop_channel_def)
  qed
qed

lemma refresh_frame:
  "sessions (refresh now a st) = sessions st"
  "active_by_channel (refresh now a st) = active_by_channel st"
  "next_addr (refresh now a st) = next_addr st"
  "ttl_seconds (refresh now a st) = ttl_seconds st"
  "user_id (heap (refresh now a st) b) = user_id (heap st b)"
  "guild_id (heap (refresh now a st) b) = guild_id (heap st b)"
  "channel_id (heap (refresh now a st) b) = channel_id (heap st b)"
  by (simp_all add: refresh_def)

lemma refresh_inv: "store_inv st \<Longrightarrow> store_inv (refresh now a st)"
  by (simp add: store_inv_def refresh_frame)

lemma clear_expired_active_inv:
  assumes inv: "store_inv st" and r: "clear_expired_active now g c st = (act, st')"
  shows "store_inv st'"
    and "heap st' = heap st" and "next_addr st' = next_addr st" and "ttl_seconds st' = ttl_seconds st"
    and "act = None \<Longrightarrow> (\<forall>u b. ((u, g, c), b) \<notin> set (sessions st'))"
    and "\<And>a. act = Some a \<Longrightarrow> ((g, c), a) \<in> set (active_by_channel st') \<and> \<not> expired (heap st' a) now"
proof -
  from inv have d: "distinct (map fst (active_by_channel st))" unfolding store_inv_def by blast
  show "store_inv st'"
    using inv r drop_channel_inv(1) [OF inv]
    by (auto simp add: clear_expired_active_def split: option.splits if_splits)
  show "heap st' = heap st" "next_addr st' = next_addr st" "ttl_seconds st' = ttl_seconds st"
    using r by (auto simp add: clear_expired_active_def drop_channel_def split: option.splits if_splits)
  show "\<forall>u b. ((u, g, c), b) \<notin> set (sessions st')" if "act = None"
  proof (cases "dict_get (active_by_channel st) (g, c)")
    case None
    then have st: "st' = st" using r by (simp add: clear_expired_active_def)
    have "\<forall>b. ((g, c), b) \<notin> set (active_by_channel st)"
      using None by (force simp add: dict_get_def map_of_eq_None_iff)
    then show ?thesis using inv unfolding st store_inv_def by blast
  next
    case (Some a)
    with r that have "st' = drop_channel a g c st"
      by (auto simp add: clear_expired_active_def split: if_splits)
    then show ?thesis using drop_channel_inv(2) [OF inv Some] by simp
  qed
  show "((g, c), a) \<in> set (active_by_channel st') \<and> \<not> expired (heap st' a) now" if "act = Some a" for a
    using r that d
    by (auto simp add: clear_expired_active_def dict_get_iff split: option.splits if_splits)
qed

lemma supersede_inv:
  assumes inv: "store_inv st"
    and act: "active_session = None \<longrightarrow> (\<forall>u b. ((u, g, c), b) \<notin> set (sessions st))"
      "\<And>a. active_session = Some a \<Longrightarrow> ((g, c), a) \<in> set (active_by_channel st)"
    and r: "supersede author g c active_session ended st = (ended', st')"
  shows "store_inv st' \<and> channel_clean author g c st'
       \<and> heap st' = heap st \<and> next_addr st' = next_addr st \<and> ttl_seconds st' = ttl_seconds st
       \<and> set (sessions st') \<subseteq> set (sessions st)"
proof -
  from inv have d: "distinct (map fst (active_by_channel st))" unfolding store_inv_def by blast
  consider (none) "active_session = None" "st' = st"
    | (same) a where "active_session = Some a" "user_id (heap st a) = author" "st' = st"
    | (other) a where "active_session = Some a" "user_id (heap st a) \<noteq> author"
        "st' = drop_channel a g c st"
    using r by (auto simp add: supersede_def split: option.splits if_splits)
  then show ?thesis
  proof cases
    case none
    then show ?thesis using inv act(1) by (simp add: channel_clean_def)
  next
    case (same a)
    have "channel_clean author g c st"
      unfolding channel_clean_def
      using same_channel_same_key [OF inv _ act(2) [OF same(1)]] same(2) by blast
    then show ?thesis using inv same by simp
  next
    case (other a)
    have g: "dict_get (active_by_channel st) (g, c) = Some a"
      using act(2) [OF other(1)] d by (simp add: dict_get_iff)
    have "set (sessions (drop_channel a g c st)) \<subseteq> set (sessions st)"
      by (auto simp add: drop_channel_def dict_pop_set)
    then show ?thesis
      using drop_channel_inv(1,2) [OF inv g] other
      by (simp add: channel_clean_def drop_channel_def)
  qed
qed

lemma filter_single_key:
  assumes "distinct (map fst xs)" and "(k, v) \<in> set xs" and "P (k, v)"
    and "\<forall>e \<in> set xs. P e \<longrightarrow> fst e = k"
  shows "filter P xs = [(k, v)]"
  using assms
proof (induction xs)
  case Nil
  then show ?case by simp
next
  case (Cons x xs)
  show ?case
  proof (cases "x = (k, v)")
    case True
    have "\<forall>e \<in> set xs. \<not> P e"
    proof
      fix e assume e: "e \<in> set xs"
      show "\<not> P e"
      proof
        assume "P e"
        then have "fst e = k" using Cons.prems(4) e by simp
        then have "k \<in> fst ` set xs" using e by force
        then show False using Cons.prems(1) True by simp
      qed
    qed
    then have "filter P xs = []" by (simp add: filter_empty_conv)
    then show ?thesis using True Cons.prems(3) by simp
  next
    case False
    then have in_xs: "(k, v) \<in> set xs" using Cons.prems(2) by simp
    have "\<not> P x"
    proof
      assume "P x"
      then have "fst x = k" using Cons.prems(4) by simp
      moreover have "k \<in> fst ` set xs" using in_xs by force
      ultimately show False using Cons.prems(1) by simp
    qed
    moreover have "filter P xs = [(k, v)]"
      using Cons.IH [OF _ in_xs Cons.prems(3)] Cons.prems(1,4) by simp
    ultimately show ?thesis by simp
  qed
qed

lemma filter_at_most_one:
  assumes "distinct (map fst xs)"
    and "\<forall>e \<in> set xs. \<forall>e' \<in> set xs. P e \<and> P e' \<longrightarrow> fst e = fst e'"
  shows "length (filter P xs) \<le> 1"
proof (cases "filter P xs")
  case Nil
  then show ?thesis by simp
next
  case (Cons e es)
  then have "e \<in> set (filter P xs)" by simp
  then have e: "e \<in> set xs" "P e" by simp_all
  obtain k v where kv: "e = (k, v)" by (cases e) auto
  have "filter P xs = [(k, v)]"
  proof (rule filter_single_key [OF assms(1)])
    show "(k, v) \<in> set xs" using e(1) kv by simp
    show "P (k, v)" using e(2) kv by simp
    show "\<forall>e' \<in> set xs. P e' \<longrightarrow> fst e' = k"
    proof (intro ballI impI)
      fix e' assume "e' \<in> set xs" "P e'"
      with assms(2) e have "fst e' = fst e" by blast
      then show "fst e' = k" by (simp add: kv)
    qed
  qed
  then show ?thesis by simp
qed

lemma channel_sessions_unique:
  assumes inv: "store_inv st"
  shows "length (channel_sessions st g c) \<le> 1"
proof -
  let ?P = "\<lambda>((u, g', c'), a). g' = g \<and> c' = c"
  from inv have d: "distinct (map fst (sessions st))" unfolding store_inv_def by blast
  have same: "fst e = fst e'"
    if m: "e \<in> set (sessions st)" and m': "e' \<in> set (sessions st)" and p: "?P e" and p': "?P e'"
    for e e'
  proof -
    obtain u a where e: "e = ((u, g, c), a)" using p by (cases e) auto
    obtain u' a' where e': "e' = ((u', g, c), a')" using p' by (cases e') auto
    from inv m e have act: "((g, c), a) \<in> set (active_by_channel st)"
      unfolding store_inv_def by blast
    have "u = user_id (heap st a)"
      using same_channel_same_key [OF inv m [unfolded e] act] by simp
    moreover have "u' = user_id (heap st a)"
      using same_channel_same_key [OF inv m' [unfolded e'] act] by simp
    ultimately show ?thesis by (simp add: e e')
  qed
  have "length (filter ?P (sessions st)) \<le> 1"
  proof (rule filter_at_most_one [OF d], intro ballI impI, elim conjE)
    fix e e'
    assume "e \<in> set (sessions st)" "e' \<in> set (sessions st)" "?P e" "?P e'"
    then show "fst e = fst e'" by (rule same)
  qed
  then show ?thesis by (simp add: channel_sessions_def)
qed

lemma create_inv:
  fixes now :: time
  assumes inv: "store_inv st" and clean: "channel_clean author g c st"
    and r: "new_session now author g c st = (a', st4)"
  defines "st' \<equiv> st4\<lparr>active_by_channel := dict_set (active_by_channel st4) (g, c) a'\<rparr>"
  shows "store_inv st' \<and> channel_sessions st' g c = [a'] \<and> user_id (heap st' a') = author
       \<and> dict_get (active_by_channel st') (g, c) = Some a'
       \<and> expires_at (heap st' a') = now + ttl_seconds st"
proof -
  let ?n = "next_addr st"
  let ?k = "(author, g, c)"
  from inv have d: "distinct (map fst (sessions st))" "distinct (map fst (active_by_channel st))"
    unfolding store_inv_def by blast+
  from r have a': "a' = ?n" by (simp add: new_session_def)
  have f: "sessions st' = dict_set (sessions st) ?k ?n" "next_addr st' = Suc ?n"
    "active_by_channel st' = dict_set (active_by_channel st) (g, c) ?n"
    "\<And>b. b \<noteq> ?n \<Longrightarrow> heap st' b = heap st b"
    "user_id (heap st' ?n) = author" "guild_id (heap st' ?n) = g" "channel_id (heap st' ?n) = c"
    "expires_at (heap st' ?n) = now + ttl_seconds st"
    using r by (auto simp add: st'_def new_session_def session_key_def)
  have ds: "distinct (map fst (sessions st'))" "distinct (map fst (active_by_channel st'))"
    using d by (simp_all add: f(1,3) dict_set_distinct)
  have sess_in: "((u, g', c'), b) \<in> set (sessions st') \<longleftrightarrow>
                   (((u, g', c'), b) \<in> set (sessions st) \<and> (u, g', c') \<noteq> ?k) \<or> ((u, g', c'), b) = (?k, ?n)"
    for u g' c' b
    unfolding f(1) dict_set_set by auto
  have act_in: "((g', c'), b) \<in> set (active_by_channel st') \<longleftrightarrow>
                   (((g', c'), b) \<in> set (active_by_channel st) \<and> (g', c') \<noteq> (g, c)) \<or> ((g', c'), b) = ((g, c), ?n)"
    for g' c' b
    unfolding f(3) dict_set_set by auto
  have i: "store_inv st'"
    unfolding store_inv_def
  proof (intro conjI allI impI)
    show "distinct (map fst (sessions st'))" "distinct (map fst (active_by_channel st'))"
      by (rule ds)+
  next
    fix u g' c' b
    assume "((u, g', c'), b) \<in> set (sessions st')"
    then consider (old) "((u, g', c'), b) \<in> set (sessions st)" "(u, g', c') \<noteq> ?k"
      | (new) "(u, g', c') = ?k" "b = ?n"
      unfolding sess_in by auto
    then have "b < next_addr st' \<and> user_id (heap st' b) = u \<and> guild_id (heap st' b) = g'
             \<and> channel_id (heap st' b) = c' \<and> ((g', c'), b) \<in> set (active_by_channel st')"
    proof cases
      case old
      from inv old(1) have p: "b < ?n" "user_id (heap st b) = u" "guild_id (heap st b) = g'"
        "channel_id (heap st b) = c'" "((g', c'), b) \<in> set (active_by_channel st)"
        unfolding store_inv_def by blast+
      have ne: "(g', c') \<noteq> (g, c)"
      proof
        assume "(g', c') = (g, c)"
        with clean old(1) have "u = author" unfolding channel_clean_def by blast
        with \<open>(g', c') = (g, c)\<close> old(2) show False by simp
      qed
      have "heap st' b = heap st b" using p(1) by (intro f(4)) simp
      then show ?thesis using p ne by (simp add: f(2) act_in)
    next
      case new
      then show ?thesis using f(5,6,7) by (simp add: f(2) act_in)
    qed
    then show "b < next_addr st'" "user_id (heap st' b) = u" "guild_id (heap st' b) = g'"
      "channel_id (heap st' b) = c'" "((g', c'), b) \<in> set (active_by_channel st')"
      by blast+
  next
    fix g' c' b
    assume "((g', c'), b) \<in> set (active_by_channel st')"
    then consider (old) "((g', c'), b) \<in> set (active_by_channel st)" "(g', c') \<noteq> (g, c)"
      | (new) "(g', c') = (g, c)" "b = ?n"
      unfolding act_in by auto
    then have "b < next_addr st' \<and> guild_id (heap st' b) = g' \<and> channel_id (heap st' b) = c'"
    proof cases
      case old
      from inv old(1) have p: "b < ?n" "guild_id (heap st b) = g'" "channel_id (heap st b) = c'"
        unfolding store_inv_def by blast+
      have "heap st' b = heap st b" using p(1) by (intro f(4)) simp
      then show ?thesis using p by (simp add: f(2))
    next
      case new
      then show ?thesis using f(6,7) by (simp add: f(2))
    qed
    then show "b < next_addr st'" "guild_id (heap st' b) = g'" "channel_id (heap st' b) = c'"
      by blast+
  qed
  have m: "(?k, ?n) \<in> set (sessions st')" unfolding sess_in by simp
  have cs: "filter (\<lambda>((u, g', c'), b). g' = g \<and> c' = c) (sessions st') = [(?k, ?n)]"
  proof (rule filter_single_key [OF ds(1) m])
    show "case (?k, ?n) of (x, xa) \<Rightarrow> (case x of (u, g', c') \<Rightarrow> \<lambda>b. g' = g \<and> c' = c) xa"
      by simp
    show "\<forall>e \<in> set (sessions st'). (case e of (x, xa) \<Rightarrow> (case x of (u, g', c') \<Rightarrow> \<lambda>b. g' = g \<and> c' = c) xa)
            \<longrightarrow> fst e = ?k"
    proof (intro ballI impI)
      fix e assume e: "e \<in> set (sessions st')"
        and pe: "case e of (x, xa) \<Rightarrow> (case x of (u, g', c') \<Rightarrow> \<lambda>b. g' = g \<and> c' = c) xa"
      obtain u b where eq: "e = ((u, g, c), b)" using pe by (cases e) auto
      from e have "(((u, g, c), b) \<in> set (sessions st) \<and> (u, g, c) \<noteq> ?k) \<or> ((u, g, c), b) = (?k, ?n)"
        unfolding eq sess_in .
      then have "u = author"
      proof
        assume "((u, g, c), b) \<in> set (sessions st) \<and> (u, g, c) \<noteq> ?k"
        with clean show ?thesis unfolding channel_clean_def by blast
      next
        assume "((u, g, c), b) = (?k, ?n)"
        then show ?thesis by simp
      qed
      then show "fst e = ?k" by (simp add: eq)
    qed
  qed
  have c1: "channel_sessions st' g c = [a']"
    by (simp add: channel_sessions_def cs a')
  have c2: "dict_get (active_by_channel st') (g, c) = Some a'"
    using ds(2) by (simp add: dict_get_iff act_in a')
  show ?thesis using i c1 c2 f(5,8) by (simp add: a')
qed

lemma touch_inv:
  fixes now :: time
  assumes inv: "store_inv st" and clean: "channel_clean author g c st"
    and m: "((author, g, c), a) \<in> set (sessions st)"
  defines "st' \<equiv> (refresh now a st)\<lparr>active_by_channel :=
                       dict_set (active_by_channel (refresh now a st)) (g, c) a\<rparr>"
  shows "store_inv st' \<and> channel_sessions st' g c = [a] \<and> user_id (heap st' a) = author
       \<and> dict_get (active_by_channel st') (g, c) = Some a
       \<and> expires_at (heap st' a) = now + ttl_seconds st"
proof -
  from inv have d: "distinct (map fst (sessions st))" "distinct (map fst (active_by_channel st))"
    unfolding store_inv_def by blast+
  from inv m have p: "a < next_addr st" "user_id (heap st a) = author" "guild_id (heap st a) = g"
    "channel_id (heap st a) = c" "((g, c), a) \<in> set (active_by_channel st)"
    unfolding store_inv_def by blast+
  have only: "b = a" if "((g, c), b) \<in> set (active_by_channel st)" for b
    using that p(5) d(2) eq_key_imp_eq_value [of "active_by_channel st" "(g, c)" b a] by simp
  have act_set: "set (dict_set (active_by_channel st) (g, c) a) = set (active_by_channel st)"
  proof (intro set_eqI iffI)
    fix e assume "e \<in> set (dict_set (active_by_channel st) (g, c) a)"
    then have "(e \<in> set (active_by_channel st) \<and> fst e \<noteq> (g, c)) \<or> e = ((g, c), a)"
      unfolding dict_set_set by (cases e) auto
    then show "e \<in> set (active_by_channel st)" using p(5) by blast
  next
    fix e assume e: "e \<in> set (active_by_channel st)"
    obtain k b where eq: "e = (k, b)" by (cases e)
    show "e \<in> set (dict_set (active_by_channel st) (g, c) a)"
    proof (cases "k = (g, c)")
      case True
      with e eq have "b = a" using only by simp
      then show ?thesis unfolding dict_set_set using eq True by simp
    next
      case False
      then show ?thesis unfolding dict_set_set using eq e by simp
    qed
  qed
  have f: "sessions st' = sessions st" "next_addr st' = next_addr st"
    "set (active_by_channel st') = set (active_by_channel st)"
    "distinct (map fst (active_by_channel st'))"
    "\<And>b. user_id (heap st' b) = user_id (heap st b)"
    "\<And>b. guild_id (heap st' b) = guild_id (heap st b)"
    "\<And>b. channel_id (heap st' b) = channel_id (heap st b)"
  proof -
    show "sessions st' = sessions st" by (simp add: st'_def refresh_frame)
    show "next_addr st' = next_addr st" by (simp add: st'_def refresh_frame)
    have "active_by_channel st' = dict_set (active_by_channel st) (g, c) a"
      by (simp add: st'_def refresh_frame)
    then show "set (active_by_channel st') = set (active_by_channel st)"
      "distinct (map fst (active_by_channel st'))"
      using act_set d(2) dict_set_distinct [of "active_by_channel st" "(g, c)" a] by simp_all
    show "\<And>b. user_id (heap st' b) = user_id (heap st b)"
      "\<And>b. guild_id (heap st' b) = guild_id (heap st b)"
      "\<And>b. channel_id (heap st' b) = channel_id (heap st b)"
      by (simp_all add: st'_def refresh_frame)
  qed
  have i: "store_inv st'"
    using inv f(4) unfolding store_inv_def f(1,2,3,5,6,7) by blast
  have cs: "filter (\<lambda>((u, g', c'), b). g' = g \<and> c' = c) (sessions st) = [((author, g, c), a)]"
  proof (rule filter_single_key [OF d(1) m])
    show "case ((author, g, c), a) of (x, xa) \<Rightarrow> (case x of (u, g', c') \<Rightarrow> \<lambda>b. g' = g \<and> c' = c) xa"
      by simp
    show "\<forall>e \<in> set (sessions st). (case e of (x, xa) \<Rightarrow> (case x of (u, g', c') \<Rightarrow> \<lambda>b. g' = g \<and> c' = c) xa)
            \<longrightarrow> fst e = (author, g, c)"
    proof (intro ballI impI)
      fix e assume e: "e \<in> set (sessions st)"
        and pe: "case e of (x, xa) \<Rightarrow> (case x of (u, g', c') \<Rightarrow> \<lambda>b. g' = g \<and> c' = c) xa"
      obtain u b where eq: "e = ((u, g, c), b)" using pe by (cases e) auto
      from clean e eq have "u = author" unfolding channel_clean_def by blast
      then show "fst e = (author, g, c)" by (simp add: eq)
    qed
  qed
  have c1: "channel_sessions st' g c = [a]"
    by (simp add: channel_sessions_def f(1) cs)
  have c2: "dict_get (active_by_channel st') (g, c) = Some a"
    using f(3,4) p(5) by (simp add: dict_get_iff)
  have c3: "expires_at (heap st' a) = now + ttl_seconds st"
    by (simp add: st'_def refresh_def)
  show ?thesis using i c1 c2 c3 f(5) p(2) by simp
qed

lemma dict_get_pop: "k \<noteq> k0 \<Longrightarrow> dict_get (dict_pop d k0) k = dict_get d k"
  by (induction d) (auto simp add: dict_get_def dict_pop_def)

lemma supersede_lookup:
  assumes "supersede author g c active_session ended st = (ended', st')"
  shows "dict_get (sessions st') (session_key author g c) = dict_get (sessions st) (session_key author g c)"
proof (cases active_session)
  case None
  with assms show ?thesis by (simp add: supersede_def)
next
  case (Some a)
  show ?thesis
  proof (cases "user_id (heap st a) \<noteq> author")
    case True
    with assms Some have "st' = drop_channel a g c st" by (simp add: supersede_def)
    then have "sessions st' = dict_pop (sessions st) (session_key (user_id (heap st a)) g c)"
      by (simp add: drop_channel_def)
    moreover have "session_key author g c \<noteq> session_key (user_id (heap st a)) g c"
      using True by (simp add: session_key_def)
    ultimately show ?thesis by (simp add: dict_get_pop)
  next
    case False
    with assms Some show ?thesis by (simp add: supersede_def)
  qed
qed

lemma supersede_ended:
  assumes "supersede author g c active_session ended st = (ended', st')"
  shows "ended' = (case active_session of None \<Rightarrow> ended
                   | Some a \<Rightarrow> if user_id (heap st a) \<noteq> author
                               then ended @ [(a, ''superseded'')] else ended)"
  using assms by (cases active_session) (simp_all add: supersede_def split: if_splits)

lemma route_directed_inv:
  fixes now :: time
  assumes inv: "store_inv st"
    and act: "active_session = None \<longrightarrow> (\<forall>u b. ((u, g, c), b) \<notin> set (sessions st))"
      "\<And>a. active_session = Some a \<Longrightarrow> ((g, c), a) \<in> set (active_by_channel st)"
    and r: "route_directed now author g c active_session
              (dict_get (sessions st) (session_key author g c)) ended st = (label, res, ended', st')"
  shows "store_inv st' \<and> label = ''directed''
       \<and> (\<exists>a'. res = Some a' \<and> channel_sessions st' g c = [a'] \<and> user_id (heap st' a') = author
               \<and> dict_get (active_by_channel st') (g, c) = Some a'
               \<and> expires_at (heap st' a') = now + ttl_seconds st
               \<and> (a' < next_addr st \<longrightarrow> user_id (heap st a') = author))
       \<and> ended' = (case active_session of None \<Rightarrow> ended
                    | Some a \<Rightarrow> if user_id (heap st a) \<noteq> author
                                then ended @ [(a, ''superseded'')] else ended)"
proof -
  let ?k = "session_key author g c"
  obtain e3 st3 where s: "supersede author g c active_session ended st = (e3, st3)"
    by (cases "supersede author g c active_session ended st")
  obtain a' st4 where t: "touch_or_create now author g c (dict_get (sessions st) ?k) st3 = (a', st4)"
    by (cases "touch_or_create now author g c (dict_get (sessions st) ?k) st3")
  from r s t have res: "label = ''directed''" "res = Some a'" "ended' = e3"
    "st' = st4\<lparr>active_by_channel := dict_set (active_by_channel st4) (g, c) a'\<rparr>"
    by (simp_all add: route_directed_def)
  from supersede_inv [OF inv act s] have i3: "store_inv st3" and cl: "channel_clean author g c st3"
    and h3: "heap st3 = heap st" and n3: "next_addr st3 = next_addr st"
    and t3: "ttl_seconds st3 = ttl_seconds st" and sub: "set (sessions st3) \<subseteq> set (sessions st)"
    by blast+
  have look: "dict_get (sessions st3) ?k = dict_get (sessions st) ?k"
    by (rule supersede_lookup [OF s])
  from i3 have d3: "distinct (map fst (sessions st3))" unfolding store_inv_def by blast
  have tc: "(\<exists>a0. dict_get (sessions st) ?k = Some a0 \<and> \<not> expired (heap st3 a0) now
                 \<and> a' = a0 \<and> st4 = refresh now a0 st3)
            \<or> new_session now author g c st3 = (a', st4)"
  proof (cases "dict_get (sessions st) ?k")
    case None
    with t show ?thesis by (simp add: touch_or_create_def)
  next
    case (Some a0)
    show ?thesis
    proof (cases "expired (heap st3 a0) now")
      case True
      with t Some show ?thesis by (simp add: touch_or_create_def)
    next
      case False
      have e1: "touch_or_create now author g c (Some a0) st3 = (a', st4)"
        using t unfolding Some .
      have e2: "touch_or_create now author g c (Some a0) st3 = (a0, refresh now a0 st3)"
        using False by (simp add: touch_or_create_def)
      have "(a', st4) = (a0, refresh now a0 st3)"
        unfolding e1 [symmetric] e2 ..
      then have "a' = a0" "st4 = refresh now a0 st3" by blast+
      with Some False show ?thesis by blast
    qed
  qed
  from tc have main: "store_inv st' \<and> channel_sessions st' g c = [a'] \<and> user_id (heap st' a') = author
       \<and> dict_get (active_by_channel st') (g, c) = Some a'
       \<and> expires_at (heap st' a') = now + ttl_seconds st
       \<and> (a' < next_addr st \<longrightarrow> user_id (heap st a') = author)"
  proof
    assume "\<exists>a0. dict_get (sessions st) ?k = Some a0 \<and> \<not> expired (heap st3 a0) now
                 \<and> a' = a0 \<and> st4 = refresh now a0 st3"
    then obtain a0 where touch: "dict_get (sessions st) ?k = Some a0"
      "a' = a0" "st4 = refresh now a0 st3"
      by blast
    from touch(1) look have "dict_get (sessions st3) ?k = Some a0" by simp
    then have m: "((author, g, c), a0) \<in> set (sessions st3)"
      using d3 by (simp add: dict_get_iff session_key_def)
    from m sub have "((author, g, c), a0) \<in> set (sessions st)" by blast
    with inv have u: "user_id (heap st a0) = author" unfolding store_inv_def by blast
    have eq: "(refresh now a0 st3)\<lparr>active_by_channel :=
                 dict_set (active_by_channel (refresh now a0 st3)) (g, c) a0\<rparr> = st'"
      unfolding res(4) touch(2,3) ..
    note ti = touch_inv [OF i3 cl m, of now, unfolded eq t3]
    show ?thesis unfolding touch(2) using ti u by blast
  next
    assume create: "new_session now author g c st3 = (a', st4)"
    have fresh: "\<not> a' < next_addr st" using create n3 by (simp add: new_session_def)
    have eq: "st4\<lparr>active_by_channel := dict_set (active_by_channel st4) (g, c) a'\<rparr> = st'"
      unfolding res(4) ..
    note ci = create_inv [OF i3 cl create, unfolded eq t3]
    show ?thesis using ci fresh by blast
  qed
  from supersede_ended [OF s] res(3) have
    "ended' = (case active_session of None \<Rightarrow> ended
               | Some a \<Rightarrow> if user_id (heap st a) \<noteq> author
                           then ended @ [(a, ''superseded'')] else ended)"
    by simp
  with main res(1,2) show ?thesis by blast
qed

lemma route_undirected_inv:
  assumes "store_inv st"
  shows "store_inv (snd (snd (snd (route_undirected now author active_session ended st))))"
  using assms
  by (simp add: route_undirected_def refresh_inv split: option.splits)

lemma route_stimulus_inv:
  assumes inv: "store_inv st"
  shows "store_inv (snd (snd (snd (route_stimulus now clock stim st))))"
proof -
  obtain e1 st1 where x: "expire_stale clock st = (e1, st1)" by (cases "expire_stale clock st")
  from expire_stale_inv(1) [OF inv, of clock] x have i1: "store_inv st1" by simp
  let ?ctx = "stim_context stim"
  let ?g = "guild_of ?ctx"
  show ?thesis
  proof (cases "stim_type stim \<notin> {''discord_message'', ''attachment''}")
    case True
    then show ?thesis using x i1 by (simp add: route_stimulus_def)
  next
    case ty: False
    show ?thesis
    proof (cases "author_id ?ctx")
      case None
      then show ?thesis using x i1 ty by (simp add: route_stimulus_def)
    next
      case (Some author)
      note au = Some
      show ?thesis
      proof (cases "ctx_channel_id ?ctx")
        case None
        then show ?thesis using x i1 ty au by (simp add: route_stimulus_def)
      next
        case (Some c)
        obtain act st2 where cl: "clear_expired_active now ?g c st1 = (act, st2)"
          by (cases "clear_expired_active now ?g c st1")
        note ce = clear_expired_active_inv [OF i1 cl]
        let ?session = "dict_get (sessions st2) (session_key author ?g c)"
        have eq: "route_stimulus now clock stim st =
                    (if detected_direct now author ?ctx ?session st2
                     then route_directed now author ?g c act ?session e1 st2
                     else route_undirected now author act e1 st2)"
          using x ty au Some cl by (simp add: route_stimulus_def Let_def)
        show ?thesis
        proof (cases "detected_direct now author ?ctx ?session st2")
          case True
          obtain label res ended' st' where
            r: "route_directed now author ?g c act ?session e1 st2 = (label, res, ended', st')"
            by (cases "route_directed now author ?g c act ?session e1 st2")
          have a1: "act = None \<longrightarrow> (\<forall>u b. ((u, ?g, c), b) \<notin> set (sessions st2))"
            using ce(5) by blast
          have a2: "\<And>a. act = Some a \<Longrightarrow> ((?g, c), a) \<in> set (active_by_channel st2)"
            using ce(6) by blast
          from route_directed_inv [OF ce(1) a1 a2 r] have "store_inv st'" by blast
          then show ?thesis using eq True r by simp
        next
          case False
          then show ?thesis using eq route_undirected_inv [OF ce(1)] by simp
        qed
      qed
    qed
  qed
qed

lemma route_all_inv: "store_inv st \<Longrightarrow> store_inv (route_all evs st)"
proof (induction evs arbitrary: st)
  case Nil
  then show ?case by simp
next
  case (Cons ev evs)
  obtain now clock stim where ev: "ev = (now, clock, stim)" by (cases ev)
  show ?case unfolding ev route_all.simps
    by (rule Cons.IH) (rule route_stimulus_inv [OF Cons.prems])
qed

lemma SessionStore_inv: "store_inv (SessionStore ttl)"
  by (simp add: store_inv_def SessionStore_def)

lemma expire_stale_active:
  "active_by_channel (snd (expire_stale clock st)) = active_by_channel st"
  by (simp add: expire_stale_def)

lemma supersede_step:
  fixes now :: time
  assumes inv: "store_inv st"
    and ty: "stim_type stim \<in> {''discord_message'', ''attachment''}"
    and au: "author_id (stim_context stim) = Some u"
    and ch: "ctx_channel_id (stim_context stim) = Some c"
    and g: "guild_of (stim_context stim) = g"
    and act: "dict_get (active_by_channel st) (g, c) = Some a"
    and live: "\<not> expired (heap st a) now"
    and other: "user_id (heap st a) \<noteq> u"
  shows "mentions_bot (stim_context stim) \<longrightarrow> fst (route_stimulus now clock stim st) = ''directed''"
    and "route_stimulus now clock stim st = (''directed'', res, ended, st') \<longrightarrow>
           (\<exists>a'. res = Some a' \<and> a' \<noteq> a \<and> user_id (heap st' a') = u
              \<and> filter (\<lambda>e. snd e = ''superseded'') ended = [(a, ''superseded'')]
              \<and> dict_get (active_by_channel st') (g, c) = Some a'
              \<and> channel_sessions st' g c = [a']
              \<and> expires_at (heap st' a') = now + ttl_seconds st)"
proof -
  let ?ctx = "stim_context stim"
  obtain e1 st1 where x: "expire_stale clock st = (e1, st1)" by (cases "expire_stale clock st")
  have i1: "store_inv st1" using expire_stale_inv(1) [OF inv, of clock] x by simp
  have h1: "heap st1 = heap st" using expire_stale_inv(3) [OF inv, of clock] x by simp
  have n1: "next_addr st1 = next_addr st" using expire_stale_inv(2) [OF inv, of clock] x by simp
  have t1: "ttl_seconds st1 = ttl_seconds st" using expire_stale_inv(4) [OF inv, of clock] x by simp
  have e1: "\<forall>e \<in> set e1. snd e = ''timeout''" using expire_stale_inv(5) [OF inv, of clock] x by simp
  have a1: "active_by_channel st1 = active_by_channel st" using expire_stale_active [of clock st] x by simp
  have cl: "clear_expired_active now g c st1 = (Some a, st1)"
    using act live by (simp add: clear_expired_active_def a1 h1)
  let ?session = "dict_get (sessions st1) (session_key u g c)"
  have eq: "route_stimulus now clock stim st =
              (if detected_direct now u ?ctx ?session st1
               then route_directed now u g c (Some a) ?session e1 st1
               else route_undirected now u (Some a) e1 st1)"
    using x ty au ch g cl by (simp add: route_stimulus_def Let_def)
  have und: "route_undirected now u (Some a) e1 st1 = (''ambient'', None, e1, st1)"
    using other by (simp add: route_undirected_def h1)
  from inv have d: "distinct (map fst (active_by_channel st))" unfolding store_inv_def by blast
  from act d have m: "((g, c), a) \<in> set (active_by_channel st)" by (simp add: dict_get_iff)
  from inv m have lt: "a < next_addr st" unfolding store_inv_def by blast
  have p1: "Some a = None \<longrightarrow> (\<forall>u b. ((u, g, c), b) \<notin> set (sessions st1))" by simp
  have p2: "\<And>b. Some a = Some b \<Longrightarrow> ((g, c), b) \<in> set (active_by_channel st1)"
    using m a1 by simp
  obtain label res0 ended0 st0 where
    rd: "route_directed now u g c (Some a) ?session e1 st1 = (label, res0, ended0, st0)"
    by (cases "route_directed now u g c (Some a) ?session e1 st1")
  note di = route_directed_inv [OF i1 p1 p2 rd]
  from di have lab: "label = ''directed''" by blast
  from di have en: "ended0 = e1 @ [(a, ''superseded'')]"
    using other by (simp add: h1)
  from di obtain a' where a': "res0 = Some a'" "channel_sessions st0 g c = [a']"
    "user_id (heap st0 a') = u" "dict_get (active_by_channel st0) (g, c) = Some a'"
    "expires_at (heap st0 a') = now + ttl_seconds st1"
    "a' < next_addr st1 \<longrightarrow> user_id (heap st1 a') = u"
    by blast
  have ne: "a' \<noteq> a"
  proof
    assume "a' = a"
    with a'(6) lt n1 h1 have "user_id (heap st a) = u" by simp
    with other show False by simp
  qed
  have fe: "filter (\<lambda>e. snd e = ''superseded'') e1 = []"
  proof -
    have "\<forall>e \<in> set e1. \<not> snd e = ''superseded''" using e1 by auto
    then show ?thesis by (simp add: filter_empty_conv)
  qed
  have ff: "filter (\<lambda>e. snd e = ''superseded'') ended0 = [(a, ''superseded'')]"
    unfolding en by (simp add: fe)
  show "mentions_bot ?ctx \<longrightarrow> fst (route_stimulus now clock stim st) = ''directed''"
  proof
    assume "mentions_bot ?ctx"
    then have "detected_direct now u ?ctx ?session st1" by (simp add: detected_direct_def Let_def)
    then show "fst (route_stimulus now clock stim st) = ''directed''"
      unfolding eq using rd lab by simp
  qed
  show "route_stimulus now clock stim st = (''directed'', res, ended, st') \<longrightarrow>
           (\<exists>a'. res = Some a' \<and> a' \<noteq> a \<and> user_id (heap st' a') = u
              \<and> filter (\<lambda>e. snd e = ''superseded'') ended = [(a, ''superseded'')]
              \<and> dict_get (active_by_channel st') (g, c) = Some a'
              \<and> channel_sessions st' g c = [a']
              \<and> expires_at (heap st' a') = now + ttl_seconds st)"
  proof
    assume r: "route_stimulus now clock stim st = (''directed'', res, ended, st')"
    have det: "detected_direct now u ?ctx ?session st1"
    proof (rule ccontr)
      assume "\<not> detected_direct now u ?ctx ?session st1"
      then have "route_stimulus now clock stim st = (''ambient'', None, e1, st1)"
        unfolding eq und by simp
      with r show False by simp
    qed
    have "route_stimulus now clock stim st = (label, res0, ended0, st0)"
      unfolding eq using det rd by simp
    with r have same: "res = res0" "ended = ended0" "st' = st0" by simp_all
    show "\<exists>a'. res = Some a' \<and> a' \<noteq> a \<and> user_id (heap st' a') = u
              \<and> filter (\<lambda>e. snd e = ''superseded'') ended = [(a, ''superseded'')]
              \<and> dict_get (active_by_channel st') (g, c) = Some a'
              \<and> channel_sessions st' g c = [a']
              \<and> expires_at (heap st' a') = now + ttl_seconds st"
      unfolding same using a'(1-5) ne ff t1 by simp
  qed
qed

lemma held_session_is_active:
  assumes inv: "store_inv st" and b: "b \<in> set (channel_sessions st g c)"
  shows "dict_get (active_by_channel st) (g, c) = Some b"
proof -
  from b obtain e where e: "e \<in> set (sessions st)"
    "(case e of ((u, g', c'), a) \<Rightarrow> g' = g \<and> c' = c)" "snd e = b"
    unfolding channel_sessions_def by auto
  obtain u where eq: "e = ((u, g, c), b)" using e(2,3) by (cases e) auto
  from inv e(1) eq have "((g, c), b) \<in> set (active_by_channel st)"
    unfolding store_inv_def by blast
  moreover from inv have "distinct (map fst (active_by_channel st))"
    unfolding store_inv_def by blast
  ultimately show ?thesis by (simp add: dict_get_iff)
qed

lemma first_mention_store:
  "route_all [(0, 0, mention_from 1)] (SessionStore 30) =
     \<lparr>ttl_seconds = 30,
      heap = (\<lambda>a. blank_session)
               (0 := \<lparr>user_id = 1, channel_id = 99, guild_id = ''guild'', session_start = 0,
                      last_interaction = 0, active = True, expires_at = 30, message_count = 1\<rparr>),
      next_addr = Suc 0,
      sessions = [((1, ''guild'', 99), 0)],
      active_by_channel = [((''guild'', 99), 0)]\<rparr>"
  by (simp add: route_stimulus_def expire_stale_def SessionStore_def mention_from_def guild_of_def
      clear_expired_active_def dict_get_def detected_direct_def route_directed_def supersede_def
      touch_or_create_def new_session_def dict_set_def session_key_def Let_def)

text \<open>
  Claim C8.  Let \<open>st\<close> be the store after any series of routed stimuli, from
  the empty store.  The dictionary \<^verbatim>\<open>sessions\<close> holds at most one session for a
  channel of a guild, hence at most one that is not expired, and a session it
  holds is the one registered in \<^verbatim>\<open>active_by_channel\<close> for the channel.  Let the
  channel have a registered session \<open>a\<close> that is not expired at \<open>now\<close>, and let a
  message arrive from another user \<open>u\<close>.  A message that mentions the bot is
  routed as directed.  Whenever the message is routed as directed, the ended
  sessions contain the event \<open>(a, superseded)\<close> exactly once and no other
  \<^verbatim>\<open>superseded\<close> event, the session returned is another object, it belongs to
  \<open>u\<close>, it expires \<^verbatim>\<open>ttl_seconds\<close> after \<open>now\<close>, it is registered as the active
  session of the channel, and it is the only session that \<^verbatim>\<open>sessions\<close> holds for
  the channel.
\<close>

theorem one_session_per_channel:
  fixes now :: time
  assumes reach: "st = route_all evs (SessionStore ttl)"
  shows "length (channel_sessions st g c) \<le> 1
       \<and> length (live_sessions st t g c) \<le> 1
       \<and> (\<forall>b \<in> set (channel_sessions st g c). dict_get (active_by_channel st) (g, c) = Some b)
       \<and> (stim_type stim \<in> {''discord_message'', ''attachment''}
            \<and> author_id (stim_context stim) = Some u
            \<and> ctx_channel_id (stim_context stim) = Some c
            \<and> guild_of (stim_context stim) = g
            \<and> dict_get (active_by_channel st) (g, c) = Some a
            \<and> \<not> expired (heap st a) now
            \<and> user_id (heap st a) \<noteq> u
          \<longrightarrow> (mentions_bot (stim_context stim)
                 \<longrightarrow> fst (route_stimulus now clock stim st) = ''directed'')
              \<and> (route_stimulus now clock stim st = (''directed'', res, ended, st')
                 \<longrightarrow> (\<exists>a'. res = Some a' \<and> a' \<noteq> a \<and> user_id (heap st' a') = u
                        \<and> filter (\<lambda>e. snd e = ''superseded'') ended = [(a, ''superseded'')]
                        \<and> dict_get (active_by_channel st') (g, c) = Some a'
                        \<and> channel_sessions st' g c = [a']
                        \<and> expires_at (heap st' a') = now + ttl_seconds st)))"
proof -
  have inv: "store_inv st"
    unfolding reach by (rule route_all_inv) (rule SessionStore_inv)
  have one: "length (channel_sessions st g c) \<le> 1"
    by (rule channel_sessions_unique [OF inv])
  have "length (live_sessions st t g c) \<le> length (channel_sessions st g c)"
    unfolding live_sessions_def by (rule length_filter_le)
  with one have live: "length (live_sessions st t g c) \<le> 1" by simp
  have held: "\<forall>b \<in> set (channel_sessions st g c). dict_get (active_by_channel st) (g, c) = Some b"
    using held_session_is_active [OF inv] by blast
  have step: "(mentions_bot (stim_context stim)
                 \<longrightarrow> fst (route_stimulus now clock stim st) = ''directed'')
              \<and> (route_stimulus now clock stim st = (''directed'', res, ended, st')
                 \<longrightarrow> (\<exists>a'. res = Some a' \<and> a' \<noteq> a \<and> user_id (heap st' a') = u
                        \<and> filter (\<lambda>e. snd e = ''superseded'') ended = [(a, ''superseded'')]
                        \<and> dict_get (active_by_channel st') (g, c) = Some a'
                        \<and> channel_sessions st' g c = [a']
                        \<and> expires_at (heap st' a') = now + ttl_seconds st))"
    if "stim_type stim \<in> {''discord_message'', ''attachment''}"
      "author_id (stim_context stim) = Some u"
      "ctx_channel_id (stim_context stim) = Some c"
      "guild_of (stim_context stim) = g"
      "dict_get (active_by_channel st) (g, c) = Some a"
      "\<not> expired (heap st a) now"
      "user_id (heap st a) \<noteq> u"
    using supersede_step [OF inv that] by blast
  show ?thesis using one live held step by blast
qed

theorem one_session_per_channel_witness:
  "channel_sessions (route_all [(0, 0, mention_from 1)] (SessionStore 30)) ''guild'' 99 = [0]
 \<and> (\<exists>st'. route_stimulus 1 1 (mention_from 2) (route_all [(0, 0, mention_from 1)] (SessionStore 30))
             = (''directed'', Some 1, [(0, ''superseded'')], st')
          \<and> channel_sessions st' ''guild'' 99 = [1]
          \<and> user_id (heap st' 1) = 2
          \<and> dict_get (active_by_channel st') (''guild'', 99) = Some 1)"
proof -
  let ?st = "route_all [(0, 0, mention_from 1)] (SessionStore 30)"
  obtain label res ended st' where
    r: "route_stimulus 1 1 (mention_from 2) ?st = (label, res, ended, st')"
    by (cases "route_stimulus 1 1 (mention_from 2) ?st")
  have h: "stim_type (mention_from 2) \<in> {''discord_message'', ''attachment''}
         \<and> author_id (stim_context (mention_from 2)) = Some 2
         \<and> ctx_channel_id (stim_context (mention_from 2)) = Some 99
         \<and> guild_of (stim_context (mention_from 2)) = ''guild''
         \<and> dict_get (active_by_channel ?st) (''guild'', 99) = Some 0
         \<and> \<not> expired (heap ?st 0) 1
         \<and> user_id (heap ?st 0) \<noteq> 2"
    unfolding first_mention_store
    by (simp add: mention_from_def guild_of_def dict_get_def expired_def)
  have mb: "mentions_bot (stim_context (mention_from 2))" by (simp add: mention_from_def)
  have cs: "channel_sessions ?st ''guild'' 99 = [0]"
    unfolding first_mention_store by (simp add: channel_sessions_def)
  note inst = one_session_per_channel [OF refl, of "[(0, 0, mention_from 1)]" 30 "''guild''" 99 0
      "mention_from 2" 2 0 1 1 res ended st']
  from inst h mb have lab: "fst (route_stimulus 1 1 (mention_from 2) ?st) = ''directed''"
    by blast
  with r have r': "route_stimulus 1 1 (mention_from 2) ?st = (''directed'', res, ended, st')"
    by simp
  from inst h r' obtain a' where a': "res = Some a'" "a' \<noteq> 0" "user_id (heap st' a') = 2"
    "filter (\<lambda>e. snd e = ''superseded'') ended = [(0, ''superseded'')]"
    "dict_get (active_by_channel st') (''guild'', 99) = Some a'"
    "channel_sessions st' ''guild'' 99 = [a']"
    by blast
  have ev: "res = Some 1" "ended = [(0, ''superseded'')]"
    using r' unfolding first_mention_store
    by (simp_all add: route_stimulus_def expire_stale_def mention_from_def guild_of_def
        clear_expired_active_def dict_get_def detected_direct_def route_directed_def supersede_def
        touch_or_create_def new_session_def dict_set_def dict_pop_def drop_channel_def
        session_key_def expired_def Let_def)
  from a'(1) ev(1) have "a' = 1" by simp
  with a' ev r' cs show ?thesis by simp
qed

end
